theory Spec2Isabelle
  imports Complex_Main "HOL-Library.Word"
begin

unbundle bit_operations_syntax

section \<open>Errors\<close>

text \<open>
  The Python exceptions the modelled functions raise, as values.  A function that can
  raise returns \<open>error + 'a\<close>, with \<open>Inl\<close> for the exception.
\<close>

datatype error =
    AssertionError
  | ValueError
  | AttributeError
  | RuntimeError
  | StructError

section \<open>Transaction identifiers (pyroute2/dhcp/xids.py)\<close>

text \<open>
  \<open>random.randint(a, b)\<close> returns some integer \<open>N\<close> with \<open>a \<le> N \<le> b\<close>.  The random
  source is made explicit as a natural number of entropy: every \<open>N\<close> of the range is the
  result for some entropy, and no other value is.
\<close>

definition randint :: "int \<Rightarrow> int \<Rightarrow> nat \<Rightarrow> int" where
  "randint a b entropy = a + int entropy mod (b - a + 1)"

definition random_xid_prefix :: "nat \<Rightarrow> int" where
  "random_xid_prefix entropy = randint 0x00000010 0xFFFFFFF0 entropy"

record Xid =
  Xid_value :: int

text \<open>
  \<open>Xid.__init__\<close>: without a value the prefix is drawn at random, with a value the
  \<open>assert value < 0xFFFFFFFF\<close> decides.  The entropy is only consulted in the first case.
\<close>

definition Xid_init :: "int option \<Rightarrow> nat \<Rightarrow> error + Xid" where
  "Xid_init v entropy =
     (case v of
        None \<Rightarrow> Inr \<lparr>Xid_value = random_xid_prefix entropy\<rparr>
      | Some n \<Rightarrow> if n < 0xFFFFFFFF then Inr \<lparr>Xid_value = n\<rparr> else Inl AssertionError)"

definition random_part :: "Xid \<Rightarrow> int" where
  "random_part x = Xid_value x AND 0xFFFFFFF0"



definition for_state :: "Xid \<Rightarrow> int \<Rightarrow> error + Xid" where
  "for_state x state = Xid_init (Some (random_part x OR state)) 0"

definition matches :: "Xid \<Rightarrow> Xid \<Rightarrow> bool" where
  "matches x received_xid \<longleftrightarrow> random_part x = random_part received_xid"

section \<open>The packet filter (pyroute2/dhcp/dhcp4socket.py)\<close>

subsection \<open>Constants\<close>

text \<open>
  Modelled from the spec: the opcode constants of the class \<open>BPF\<close> of
  \<open>pyroute2.ext.bpf\<close>, which is not among the sources at hand.  The spec names the
  instructions by what they do (section 4.1); the numbers are those of the classic BPF
  instruction encoding: instruction class, operand size, addressing mode, jump test and
  operand source are added up to form an opcode.
\<close>

definition BPF_LD :: int where "BPF_LD = 0x00"
definition BPF_LDX :: int where "BPF_LDX = 0x01"
definition BPF_JMP :: int where "BPF_JMP = 0x05"
definition BPF_RET :: int where "BPF_RET = 0x06"
definition BPF_H :: int where "BPF_H = 0x08"
definition BPF_B :: int where "BPF_B = 0x10"
definition BPF_ABS :: int where "BPF_ABS = 0x20"
definition BPF_IND :: int where "BPF_IND = 0x40"
definition BPF_MSH :: int where "BPF_MSH = 0xa0"
definition BPF_JEQ :: int where "BPF_JEQ = 0x10"
definition BPF_JSET :: int where "BPF_JSET = 0x40"
definition BPF_K :: int where "BPF_K = 0x00"

lemmas BPF_defs =
  BPF_LD_def BPF_LDX_def BPF_JMP_def BPF_RET_def BPF_H_def BPF_B_def
  BPF_ABS_def BPF_IND_def BPF_MSH_def BPF_JEQ_def BPF_JSET_def BPF_K_def

text \<open>The module constants of dhcp4socket.py, and \<open>socket.IPPROTO_UDP\<close>.\<close>

definition UDP_HEADER_SIZE :: int where "UDP_HEADER_SIZE = 8"
definition IPV4_HEADER_SIZE :: int where "IPV4_HEADER_SIZE = 20"
definition SKF_AD_OFF :: int where "SKF_AD_OFF = - 0x1000"
definition SKF_AD_VLAN_TAG_PRESENT :: int where "SKF_AD_VLAN_TAG_PRESENT = 48"
definition IPPROTO_UDP :: int where "IPPROTO_UDP = 17"
definition ETHERTYPE_IP :: int where "ETHERTYPE_IP = 0x0800"

subsection \<open>The filter program\<close>

text \<open>
  \<open>listen_udp_port\<close> returns a list of rows \<open>[code, jt, jf, k]\<close> of Python integers.
\<close>

definition listen_udp_port :: "int \<Rightarrow> int list list" where
  "listen_udp_port port =
    [ [BPF_LD + BPF_B + BPF_ABS, 0, 0, SKF_AD_OFF + SKF_AD_VLAN_TAG_PRESENT],
      [BPF_JMP + BPF_JEQ + BPF_K, 0, 10, 0],
      [BPF_LD + BPF_H + BPF_ABS, 0, 0, 12],
      [BPF_JMP + BPF_JEQ + BPF_K, 0, 8, 0x0800],
      [BPF_LD + BPF_B + BPF_ABS, 0, 0, 23],
      [BPF_JMP + BPF_JEQ + BPF_K, 0, 6, IPPROTO_UDP],
      [BPF_LD + BPF_H + BPF_ABS, 0, 0, 20],
      [BPF_JMP + BPF_JSET + BPF_K, 4, 0, 8191],
      [BPF_LDX + BPF_B + BPF_MSH, 0, 0, 14],
      [BPF_LD + BPF_H + BPF_IND, 0, 0, 16],
      [BPF_JMP + BPF_JEQ + BPF_K, 0, 1, port],
      [BPF_RET + BPF_K, 0, 0, 65535],
      [BPF_RET + BPF_K, 0, 0, 0] ]"

subsection \<open>The filter engine\<close>

text \<open>
  Modelled from the spec: the engine that evaluates a filter program on a raw frame is
  the kernel's, reached through \<open>pyroute2.ext.rawsocket\<close>; neither is among the sources
  at hand.  An instruction is the quadruple of the spec's data model (opcode, jump-true
  offset, jump-false offset, immediate operand) in the fixed widths of the kernel
  interface: 16, 8, 8 and 32 bits.  A Python integer is reduced to the width of its
  field, so the negative \<open>SKF_AD_OFF + SKF_AD_VLAN_TAG_PRESENT\<close> arrives as the 32-bit
  word of the same two's complement value.
\<close>

record sock_filter =
  code :: "16 word"
  jt :: "8 word"
  jf :: "8 word"
  k :: "32 word"

fun sock_filter_of :: "int list \<Rightarrow> sock_filter option" where
  "sock_filter_of [c, t, f, v] =
     Some \<lparr>code = word_of_int c, jt = word_of_int t, jf = word_of_int f, k = word_of_int v\<rparr>"
| "sock_filter_of row = None"

fun compile_bpf :: "int list list \<Rightarrow> sock_filter list option" where
  "compile_bpf [] = Some []"
| "compile_bpf (row # rows) =
     (case sock_filter_of row of
        None \<Rightarrow> None
      | Some i \<Rightarrow> (case compile_bpf rows of None \<Rightarrow> None | Some is \<Rightarrow> Some (i # is)))"

text \<open>
  What the engine sees of a received frame: the bytes from the Ethernet header on, and
  the VLAN-tag-presence indicator the kernel keeps beside them.
\<close>

record frame =
  vlan_tag_present :: bool
  frame_bytes :: "8 word list"

text \<open>The fields of the frame a run has asked for, in the order of its loads.\<close>

datatype field =
    Ancillary int
  | Byte nat
  | Half nat

text \<open>
  Loads.  An offset is a 32-bit word read as a signed number.  A negative offset is a
  special one; of these only the ancillary VLAN indicator is modelled, the one the
  program uses.  A read that does not lie within the frame, and any other special
  offset, gives no value.  A 16-bit field is read in network byte order.  A load
  returns the field it asked for beside the value.
\<close>

definition load_special :: "frame \<Rightarrow> int \<Rightarrow> field \<times> 32 word option" where
  "load_special f i =
     (Ancillary (i - SKF_AD_OFF),
      if i = SKF_AD_OFF + SKF_AD_VLAN_TAG_PRESENT
      then Some (if vlan_tag_present f then 1 else 0)
      else None)"

definition load_byte :: "frame \<Rightarrow> 32 word \<Rightarrow> field \<times> 32 word option" where
  "load_byte f off =
     (let i = sint off in
      if i < 0 then load_special f i
      else (Byte (nat i),
            if nat i < length (frame_bytes f)
            then Some (ucast (frame_bytes f ! nat i))
            else None))"

definition load_half :: "frame \<Rightarrow> 32 word \<Rightarrow> field \<times> 32 word option" where
  "load_half f off =
     (let i = sint off in
      if i < 0 then load_special f i
      else (Half (nat i),
            if nat i + 1 < length (frame_bytes f)
            then Some (push_bit 8 (ucast (frame_bytes f ! nat i)) OR
                       ucast (frame_bytes f ! (nat i + 1)))
            else None))"

record bpf_state =
  reg_A :: "32 word"
  reg_X :: "32 word"
  fields_read :: "field list"

text \<open>
  One instruction.  It either goes on, skipping the given number of instructions after
  the next one, or ends the run with a verdict: the number of bytes of the frame to
  keep.  A load that gives no value ends the run with the verdict 0.  The opcodes are
  those the program uses; any other is a fault of the program.
\<close>

datatype bpf_step =
    Continue bpf_state nat
  | Verdict "32 word" "field list"
  | Fault

definition load_into ::
  "(bpf_state \<Rightarrow> 32 word \<Rightarrow> bpf_state) \<Rightarrow> bpf_state \<Rightarrow> field \<times> 32 word option \<Rightarrow> bpf_step" where
  "load_into upd s r =
     (case r of
        (fld, None) \<Rightarrow> Verdict 0 (fields_read s @ [fld])
      | (fld, Some v) \<Rightarrow> Continue (upd (s\<lparr>fields_read := fields_read s @ [fld]\<rparr>) v) 0)"

definition bpf_exec :: "frame \<Rightarrow> sock_filter \<Rightarrow> bpf_state \<Rightarrow> bpf_step" where
  "bpf_exec f i s =
     (let c = uint (code i) in
      if c = BPF_LD + BPF_B + BPF_ABS then
        load_into (\<lambda>s v. s\<lparr>reg_A := v\<rparr>) s (load_byte f (k i))
      else if c = BPF_LD + BPF_H + BPF_ABS then
        load_into (\<lambda>s v. s\<lparr>reg_A := v\<rparr>) s (load_half f (k i))
      else if c = BPF_LD + BPF_H + BPF_IND then
        load_into (\<lambda>s v. s\<lparr>reg_A := v\<rparr>) s (load_half f (reg_X s + k i))
      else if c = BPF_LDX + BPF_B + BPF_MSH then
        load_into (\<lambda>s v. s\<lparr>reg_X := 4 * (v AND 0xf)\<rparr>) s (load_byte f (k i))
      else if c = BPF_JMP + BPF_JEQ + BPF_K then
        Continue s (if reg_A s = k i then unat (jt i) else unat (jf i))
      else if c = BPF_JMP + BPF_JSET + BPF_K then
        Continue s (if reg_A s AND k i \<noteq> 0 then unat (jt i) else unat (jf i))
      else if c = BPF_RET + BPF_K then
        Verdict (k i) (fields_read s)
      else Fault)"

text \<open>
  The run from a program counter.  Jump offsets are unsigned, so the counter only grows:
  the run ends, at the latest by leaving the program, which is a fault.
\<close>

function bpf_run_from :: "sock_filter list \<Rightarrow> frame \<Rightarrow> nat \<Rightarrow> bpf_state \<Rightarrow> bpf_step" where
  "bpf_run_from prog f pc s =
     (if length prog \<le> pc then Fault
      else (case bpf_exec f (prog ! pc) s of
              Continue s' off \<Rightarrow> bpf_run_from prog f (pc + 1 + off) s'
            | Verdict v flds \<Rightarrow> Verdict v flds
            | Fault \<Rightarrow> Fault))"
  by pat_completeness auto
termination
  by (relation "measure (\<lambda>(prog, f, pc, s). length prog - pc)") auto

declare bpf_run_from.simps [simp del]

definition bpf_run :: "int list list \<Rightarrow> frame \<Rightarrow> bpf_step" where
  "bpf_run rows f =
     (case compile_bpf rows of
        None \<Rightarrow> Fault
      | Some prog \<Rightarrow> bpf_run_from prog f 0 \<lparr>reg_A = 0, reg_X = 0, fields_read = []\<rparr>)"

text \<open>The verdict of a finished run.\<close>

fun verdict_of :: "bpf_step \<Rightarrow> 32 word option" where
  "verdict_of (Verdict v flds) = Some v"
| "verdict_of (Continue s off) = None"
| "verdict_of Fault = None"

text \<open>
  The program as the engine receives it, and the instructions an instruction can pass
  control to: both jump targets of a conditional jump, none for a return, the next
  instruction for a load.
\<close>

definition compiled_filter :: "int \<Rightarrow> sock_filter list" where
  "compiled_filter port =
    [ \<lparr>code = 0x30, jt = 0, jf = 0, k = 0xFFFFF030\<rparr>,
      \<lparr>code = 0x15, jt = 0, jf = 10, k = 0\<rparr>,
      \<lparr>code = 0x28, jt = 0, jf = 0, k = 12\<rparr>,
      \<lparr>code = 0x15, jt = 0, jf = 8, k = 0x0800\<rparr>,
      \<lparr>code = 0x30, jt = 0, jf = 0, k = 23\<rparr>,
      \<lparr>code = 0x15, jt = 0, jf = 6, k = 17\<rparr>,
      \<lparr>code = 0x28, jt = 0, jf = 0, k = 20\<rparr>,
      \<lparr>code = 0x45, jt = 4, jf = 0, k = 8191\<rparr>,
      \<lparr>code = 0xb1, jt = 0, jf = 0, k = 14\<rparr>,
      \<lparr>code = 0x48, jt = 0, jf = 0, k = 16\<rparr>,
      \<lparr>code = 0x15, jt = 0, jf = 1, k = word_of_int port\<rparr>,
      \<lparr>code = 0x06, jt = 0, jf = 0, k = 65535\<rparr>,
      \<lparr>code = 0x06, jt = 0, jf = 0, k = 0\<rparr> ]"

definition successors :: "sock_filter \<Rightarrow> nat \<Rightarrow> nat list" where
  "successors i pc =
     (let c = uint (code i) in
      if c = BPF_JMP + BPF_JEQ + BPF_K \<or> c = BPF_JMP + BPF_JSET + BPF_K
        then [pc + 1 + unat (jt i), pc + 1 + unat (jf i)]
      else if c = BPF_RET + BPF_K then []
      else [pc + 1])"

definition jumps_in_bounds :: "sock_filter list \<Rightarrow> bool" where
  "jumps_in_bounds prog \<longleftrightarrow>
     list_all (\<lambda>pc. list_all (\<lambda>t. pc < t \<and> t < length prog) (successors (prog ! pc) pc))
       [0 ..< length prog]"

subsection \<open>The checks of the filter, in the words of its specification\<close>

text \<open>
  The fields of a frame as numbers, read from its bytes; there is no value where the
  frame is too short.
\<close>

definition u8_at :: "frame \<Rightarrow> nat \<Rightarrow> int option" where
  "u8_at f i =
     (if i < length (frame_bytes f) then Some (uint (frame_bytes f ! i)) else None)"

definition u16_at :: "frame \<Rightarrow> nat \<Rightarrow> int option" where
  "u16_at f i =
     (if i + 1 < length (frame_bytes f)
      then Some (256 * uint (frame_bytes f ! i) + uint (frame_bytes f ! (i + 1)))
      else None)"

definition no_vlan_tag :: "frame \<Rightarrow> bool" where
  "no_vlan_tag f \<longleftrightarrow> \<not> vlan_tag_present f"

definition ethertype_is_ipv4 :: "frame \<Rightarrow> bool" where
  "ethertype_is_ipv4 f \<longleftrightarrow> u16_at f 12 = Some 0x0800"

definition protocol_is_udp :: "frame \<Rightarrow> bool" where
  "protocol_is_udp f \<longleftrightarrow> u8_at f 23 = Some IPPROTO_UDP"

definition unfragmented :: "frame \<Rightarrow> bool" where
  "unfragmented f \<longleftrightarrow> map_option (\<lambda>v. v AND 0x1FFF) (u16_at f 20) = Some 0"

definition udp_dport_offset :: "frame \<Rightarrow> nat" where
  "udp_dport_offset f =
     (case u8_at f 14 of None \<Rightarrow> 16 | Some b \<Rightarrow> nat (4 * (b AND 0xF)) + 16)"

definition udp_dport_is :: "int \<Rightarrow> frame \<Rightarrow> bool" where
  "udp_dport_is port f \<longleftrightarrow>
     u8_at f 14 \<noteq> None \<and> u16_at f (udp_dport_offset f) = Some port"

section \<open>Lease timers (pyroute2/dhcp/timers.py)\<close>

subsection \<open>The event loop\<close>

text \<open>
  The timers live in the \<open>asyncio\<close> event loop, which is not part of the program.  Its
  model is the table of the timer handles \<open>call_later\<close> has created: a handle is
  referred to by its index in the table, as a Python reference refers to the object.  A
  handle knows when it is due, what to call, whether it has been cancelled and whether
  it has run.  The loop also records the calls made to it, in order, and the records
  handed to the logger are kept beside it.
\<close>

record 'cb timer_handle =
  when_due :: real
  callback :: 'cb
  cancelled :: bool
  has_run :: bool

datatype loop_call =
    CallLater nat
  | HandleCancel nat

datatype log_level = DEBUG | INFO

record 'cb event_loop =
  loop_running :: bool
  clock :: real
  handles :: "'cb timer_handle list"
  calls :: "loop_call list"
  logged :: "(log_level \<times> string \<times> string) list"

definition call_later :: "'cb event_loop \<Rightarrow> real \<Rightarrow> 'cb \<Rightarrow> nat \<times> 'cb event_loop" where
  "call_later L delay cb =
     (length (handles L),
      L\<lparr>handles := handles L @
            [\<lparr>when_due = clock L + delay, callback = cb, cancelled = False, has_run = False\<rparr>],
        calls := calls L @ [CallLater (length (handles L))]\<rparr>)"

definition handle_cancel :: "'cb event_loop \<Rightarrow> nat \<Rightarrow> 'cb event_loop" where
  "handle_cancel L h =
     L\<lparr>handles := (handles L)[h := (handles L ! h)\<lparr>cancelled := True\<rparr>],
       calls := calls L @ [HandleCancel h]\<rparr>"

definition log_record :: "log_level \<Rightarrow> string \<Rightarrow> string \<Rightarrow> 'cb event_loop \<Rightarrow> 'cb event_loop" where
  "log_record level fmt arg L = L\<lparr>logged := logged L @ [(level, fmt, arg)]\<rparr>"

text \<open>
  The handles the loop runs when its clock reaches \<open>t\<close>: those due by then that were
  neither cancelled nor run before, the earliest first.  Running a handle of the timers
  creates the task of its callback.
\<close>

definition due :: "'cb event_loop \<Rightarrow> real \<Rightarrow> nat list" where
  "due L t =
     sort_key (\<lambda>h. when_due (handles L ! h))
       (filter (\<lambda>h. \<not> cancelled (handles L ! h) \<and> \<not> has_run (handles L ! h) \<and>
                     when_due (handles L ! h) \<le> t)
          [0 ..< length (handles L)])"

definition run_until :: "'cb event_loop \<Rightarrow> real \<Rightarrow> 'cb list \<times> 'cb event_loop" where
  "run_until L t =
     (map (\<lambda>h. callback (handles L ! h)) (due L t),
      L\<lparr>clock := max (clock L) t,
        handles := map (\<lambda>h. if \<not> cancelled h \<and> when_due h \<le> t then h\<lparr>has_run := True\<rparr> else h)
                     (handles L)\<rparr>)"

subsection \<open>Leases\<close>

text \<open>
  Of a \<open>Lease\<close> (\<open>pyroute2.dhcp.leases\<close>, not among the sources at hand) the timers read
  the three attributes \<open>renewal_in\<close>, \<open>rebinding_in\<close> and \<open>expiration_in\<close>: the seconds
  left until the event, negative when it is past, or \<open>None\<close>.  Seconds are real numbers
  here.
\<close>

record lease =
  renewal_in :: "real option"
  rebinding_in :: "real option"
  expiration_in :: "real option"

definition lease_getattr :: "lease \<Rightarrow> string \<Rightarrow> error + real option" where
  "lease_getattr l name =
     (if name = ''renewal_in'' then Inr (renewal_in l)
      else if name = ''rebinding_in'' then Inr (rebinding_in l)
      else if name = ''expiration_in'' then Inr (expiration_in l)
      else Inl AttributeError)"

subsection \<open>Timers\<close>

record Timers =
  renewal :: "nat option"
  rebinding :: "nat option"
  expiration :: "nat option"

definition Timers_init :: Timers where
  "Timers_init = \<lparr>renewal = None, rebinding = None, expiration = None\<rparr>"

text \<open>
  \<open>getattr(self, timer_name)\<close> and \<open>setattr(self, timer_name, v)\<close>.  For a name that is
  not one of the three fields the read raises \<open>AttributeError\<close> (or finds a method or
  class attribute, on which the next step of \<open>_reset_timer\<close> or the read of the lease
  raises it); the write is only reached after a successful read.
\<close>

definition timers_getattr :: "Timers \<Rightarrow> string \<Rightarrow> error + nat option" where
  "timers_getattr T name =
     (if name = ''renewal'' then Inr (renewal T)
      else if name = ''rebinding'' then Inr (rebinding T)
      else if name = ''expiration'' then Inr (expiration T)
      else Inl AttributeError)"

definition timers_setattr :: "Timers \<Rightarrow> string \<Rightarrow> nat option \<Rightarrow> Timers" where
  "timers_setattr T name v =
     (if name = ''renewal'' then T\<lparr>renewal := v\<rparr>
      else if name = ''rebinding'' then T\<lparr>rebinding := v\<rparr>
      else if name = ''expiration'' then T\<lparr>expiration := v\<rparr>
      else T)"

text \<open>
  Every method returns its outcome together with the timers and the loop as it leaves
  them, also when it raises.
\<close>

type_synonym 'cb outcome = "(error + unit) \<times> Timers \<times> 'cb event_loop"

definition reset_timer :: "string \<Rightarrow> Timers \<Rightarrow> 'cb event_loop \<Rightarrow> 'cb outcome" where
  "reset_timer timer_name T L =
     (case timers_getattr T timer_name of
        Inl e \<Rightarrow> (Inl e, T, L)
      | Inr None \<Rightarrow> (Inr (), T, L)
      | Inr (Some timer) \<Rightarrow>
          (Inr (), timers_setattr T timer_name None,
           if \<not> cancelled (handles L ! timer)
           then handle_cancel (log_record DEBUG ''Canceling %s timer'' timer_name L) timer
           else L))"

fun reset_timers :: "string list \<Rightarrow> Timers \<Rightarrow> 'cb event_loop \<Rightarrow> 'cb outcome" where
  "reset_timers [] T L = (Inr (), T, L)"
| "reset_timers (timer_name # names) T L =
     (case reset_timer timer_name T L of
        (Inl e, T', L') \<Rightarrow> (Inl e, T', L')
      | (Inr u, T', L') \<Rightarrow> reset_timers names T' L')"

definition cancel :: "Timers \<Rightarrow> 'cb event_loop \<Rightarrow> 'cb outcome" where
  "cancel T L = reset_timers [''renewal'', ''rebinding'', ''expiration''] T L"

text \<open>
  The loop of \<open>arm\<close> over the keyword arguments, in the order they were given.  A value
  of the lease is false when it is \<open>None\<close> or zero.
\<close>

fun arm_callbacks ::
  "lease \<Rightarrow> (string \<times> 'cb) list \<Rightarrow> Timers \<Rightarrow> 'cb event_loop \<Rightarrow> 'cb outcome" where
  "arm_callbacks l [] T L = (Inr (), T, L)"
| "arm_callbacks l ((timer_name, async_callback) # callbacks) T L =
     (case reset_timer timer_name T L of
        (Inl e, T1, L1) \<Rightarrow> (Inl e, T1, L1)
      | (Inr u, T1, L1) \<Rightarrow>
          (case lease_getattr l (timer_name @ ''_in'') of
             Inl e \<Rightarrow> (Inl e, T1, L1)
           | Inr None \<Rightarrow>
               arm_callbacks l callbacks T1
                 (log_record DEBUG ''Lease does not set a %s time'' timer_name L1)
           | Inr (Some lease_time) \<Rightarrow>
               if lease_time = 0 then
                 arm_callbacks l callbacks T1
                   (log_record DEBUG ''Lease does not set a %s time'' timer_name L1)
               else if lease_time < 0 then
                 arm_callbacks l callbacks T1
                   (log_record DEBUG ''Lease %s is in the past'' timer_name L1)
               else
                 (case call_later
                         (log_record INFO ''Scheduling lease %s in %.2fs'' timer_name L1)
                         lease_time async_callback of
                    (timer, L2) \<Rightarrow>
                      arm_callbacks l callbacks
                        (timers_setattr T1 timer_name (Some timer)) L2)))"

text \<open>
  \<open>arm\<close>: cancel, then fetch the running loop (\<open>asyncio.get_running_loop\<close> raises
  \<open>RuntimeError\<close> when there is none), then go through the callbacks.
\<close>

definition arm :: "Timers \<Rightarrow> 'cb event_loop \<Rightarrow> lease \<Rightarrow> (string \<times> 'cb) list \<Rightarrow> 'cb outcome" where
  "arm T L l callbacks =
     (case cancel T L of
        (Inl e, T1, L1) \<Rightarrow> (Inl e, T1, L1)
      | (Inr u, T1, L1) \<Rightarrow>
          if \<not> loop_running L1 then (Inl RuntimeError, T1, L1)
          else arm_callbacks l callbacks T1 L1)"

subsection \<open>What the timers hold, and what a call of \<open>arm\<close> is to achieve\<close>

text \<open>
  The handles the three slots refer to.  The loop is shared with other users, so the
  handles of a \<open>Timers\<close> object are kept apart from the rest: \<open>own\<close> lists handles
  the object has scheduled, and the object looks after them when every slot refers to
  one of them and each of them is in the table of the loop and is cancelled or referred
  to by a slot.  Any other handle of the loop may be in any state.
\<close>

definition held :: "Timers \<Rightarrow> nat list" where
  "held T = concat (map (case_option [] (\<lambda>h. [h])) [renewal T, rebinding T, expiration T])"

definition timers_own :: "nat list \<Rightarrow> Timers \<Rightarrow> 'cb event_loop \<Rightarrow> bool" where
  "timers_own own T L \<longleftrightarrow>
     list_all (\<lambda>h. h \<in> set own) (held T) \<and>
     list_all (\<lambda>h. h < length (handles L) \<and>
                    (cancelled (handles L ! h) \<or> h \<in> set (held T))) own"

text \<open>
  A sequence of calls to the loop in which every cancellation comes before every
  \<open>call_later\<close>.
\<close>

fun is_handle_cancel :: "loop_call \<Rightarrow> bool" where
  "is_handle_cancel (HandleCancel h) = True"
| "is_handle_cancel (CallLater h) = False"

fun is_call_later :: "loop_call \<Rightarrow> bool" where
  "is_call_later (CallLater h) = True"
| "is_call_later (HandleCancel h) = False"

definition cancels_then_schedules :: "loop_call list \<Rightarrow> bool" where
  "cancels_then_schedules cs \<longleftrightarrow> list_all is_call_later (dropWhile is_handle_cancel cs)"

text \<open>
  The names of the slots, the time a lease leaves for a slot, and what \<open>arm\<close> is to
  leave behind for one callback: a fresh, live handle in the slot, due after that time
  and carrying the callback, when the time is there and positive; an empty slot
  otherwise.  Beside them the handles and the log records the callbacks call for, one
  after the other.
\<close>

definition slot_names :: "string list" where
  "slot_names = [''renewal'', ''rebinding'', ''expiration'']"

definition time_remaining :: "lease \<Rightarrow> string \<Rightarrow> real option" where
  "time_remaining l timer_name =
     (case lease_getattr l (timer_name @ ''_in'') of Inr v \<Rightarrow> v | Inl e \<Rightarrow> None)"

definition armed_with ::
  "Timers \<Rightarrow> 'cb event_loop \<Rightarrow> nat \<Rightarrow> string \<Rightarrow> real \<Rightarrow> 'cb \<Rightarrow> bool" where
  "armed_with T L n0 timer_name deadline cb \<longleftrightarrow>
     (case timers_getattr T timer_name of
        Inr (Some h) \<Rightarrow>
          n0 \<le> h \<and> h < length (handles L) \<and>
          handles L ! h =
            \<lparr>when_due = deadline, callback = cb, cancelled = False, has_run = False\<rparr>
      | Inr None \<Rightarrow> False
      | Inl e \<Rightarrow> False)"

definition slot_outcome ::
  "lease \<Rightarrow> Timers \<Rightarrow> 'cb event_loop \<Rightarrow> nat \<Rightarrow> real \<Rightarrow> string \<times> 'cb \<Rightarrow> bool" where
  "slot_outcome l T L n0 now = (\<lambda>(timer_name, cb).
     (case time_remaining l timer_name of
        None \<Rightarrow> timers_getattr T timer_name = Inr None
      | Some t \<Rightarrow>
          if 0 < t then armed_with T L n0 timer_name (now + t) cb
          else timers_getattr T timer_name = Inr None))"

definition new_handles :: "lease \<Rightarrow> real \<Rightarrow> (string \<times> 'cb) list \<Rightarrow> 'cb timer_handle list" where
  "new_handles l now callbacks =
     concat (map (\<lambda>(timer_name, cb).
       (case time_remaining l timer_name of
          None \<Rightarrow> []
        | Some t \<Rightarrow>
            if 0 < t
            then [\<lparr>when_due = now + t, callback = cb, cancelled = False, has_run = False\<rparr>]
            else [])) callbacks)"

definition log_for :: "lease \<Rightarrow> string \<times> 'cb \<Rightarrow> log_level \<times> string \<times> string" where
  "log_for l = (\<lambda>(timer_name, cb).
     (case time_remaining l timer_name of
        None \<Rightarrow> (DEBUG, ''Lease does not set a %s time'', timer_name)
      | Some t \<Rightarrow>
          if t = 0 then (DEBUG, ''Lease does not set a %s time'', timer_name)
          else if t < 0 then (DEBUG, ''Lease %s is in the past'', timer_name)
          else (INFO, ''Scheduling lease %s in %.2fs'', timer_name)))"

text \<open>
  Two relations between a loop before and after: the handles of a set were cancelled
  and nothing else happened to the handles; handles were added and no earlier one was
  touched.
\<close>

definition cancelling :: "nat set \<Rightarrow> 'cb event_loop \<Rightarrow> 'cb event_loop \<Rightarrow> bool" where
  "cancelling H L L' \<longleftrightarrow>
     length (handles L') = length (handles L) \<and>
     loop_running L' = loop_running L \<and> clock L' = clock L \<and>
     (\<forall>i < length (handles L).
        handles L' ! i = (if i \<in> H then (handles L ! i)\<lparr>cancelled := True\<rparr> else handles L ! i)) \<and>
     (\<exists>cs. calls L' = calls L @ map HandleCancel cs)"

definition scheduling :: "'cb event_loop \<Rightarrow> 'cb event_loop \<Rightarrow> bool" where
  "scheduling L L' \<longleftrightarrow>
     (\<exists>new. handles L' = handles L @ new \<and> (\<forall>h \<in> set new. \<not> cancelled h)) \<and>
     loop_running L' = loop_running L \<and> clock L' = clock L \<and>
     (\<exists>ns. calls L' = calls L @ map CallLater ns)"

text \<open>
  Example: a loop at time 100, the lease of the scenario, the state after arming once,
  the loop after another user has scheduled a call of its own, and the state after
  arming again with another lease.
\<close>

definition loop0 :: "string event_loop" where
  "loop0 = \<lparr>loop_running = True, clock = 100, handles = [], calls = [], logged = []\<rparr>"

definition lease1 :: lease where
  "lease1 = \<lparr>renewal_in = Some 30, rebinding_in = Some (- 5), expiration_in = Some 3600\<rparr>"

definition callbacks1 :: "(string \<times> string) list" where
  "callbacks1 = [(''renewal'', ''renew''), (''rebinding'', ''rebind''),
                 (''expiration'', ''expire'')]"

definition timers1 :: Timers where
  "timers1 = \<lparr>renewal = Some 0, rebinding = None, expiration = Some 1\<rparr>"

definition loop1 :: "string event_loop" where
  "loop1 = \<lparr>loop_running = True, clock = 100,
     handles = [\<lparr>when_due = 130, callback = ''renew'', cancelled = False, has_run = False\<rparr>,
                \<lparr>when_due = 3700, callback = ''expire'', cancelled = False, has_run = False\<rparr>],
     calls = [CallLater 0, CallLater 1],
     logged = [(INFO, ''Scheduling lease %s in %.2fs'', ''renewal''),
               (DEBUG, ''Lease %s is in the past'', ''rebinding''),
               (INFO, ''Scheduling lease %s in %.2fs'', ''expiration'')]\<rparr>"

definition lease2 :: lease where
  "lease2 = \<lparr>renewal_in = Some 60, rebinding_in = Some 90, expiration_in = None\<rparr>"

definition callbacks2 :: "(string \<times> string) list" where
  "callbacks2 = [(''rebinding'', ''rebind2''), (''renewal'', ''renew2'')]"

definition loop1_shared :: "string event_loop" where
  "loop1_shared = \<lparr>loop_running = True, clock = 100,
     handles = [\<lparr>when_due = 130, callback = ''renew'', cancelled = False, has_run = False\<rparr>,
                \<lparr>when_due = 3700, callback = ''expire'', cancelled = False, has_run = False\<rparr>,
                \<lparr>when_due = 600, callback = ''other'', cancelled = False, has_run = False\<rparr>],
     calls = [CallLater 0, CallLater 1, CallLater 2],
     logged = [(INFO, ''Scheduling lease %s in %.2fs'', ''renewal''),
               (DEBUG, ''Lease %s is in the past'', ''rebinding''),
               (INFO, ''Scheduling lease %s in %.2fs'', ''expiration'')]\<rparr>"

definition timers2 :: Timers where
  "timers2 = \<lparr>renewal = Some 4, rebinding = Some 3, expiration = None\<rparr>"

definition loop2 :: "string event_loop" where
  "loop2 = \<lparr>loop_running = True, clock = 100,
     handles = [\<lparr>when_due = 130, callback = ''renew'', cancelled = True, has_run = False\<rparr>,
                \<lparr>when_due = 3700, callback = ''expire'', cancelled = True, has_run = False\<rparr>,
                \<lparr>when_due = 600, callback = ''other'', cancelled = False, has_run = False\<rparr>,
                \<lparr>when_due = 190, callback = ''rebind2'', cancelled = False, has_run = False\<rparr>,
                \<lparr>when_due = 160, callback = ''renew2'', cancelled = False, has_run = False\<rparr>],
     calls = [CallLater 0, CallLater 1, CallLater 2, HandleCancel 0, HandleCancel 1,
              CallLater 3, CallLater 4],
     logged = [(INFO, ''Scheduling lease %s in %.2fs'', ''renewal''),
               (DEBUG, ''Lease %s is in the past'', ''rebinding''),
               (INFO, ''Scheduling lease %s in %.2fs'', ''expiration''),
               (DEBUG, ''Canceling %s timer'', ''renewal''),
               (DEBUG, ''Canceling %s timer'', ''expiration''),
               (INFO, ''Scheduling lease %s in %.2fs'', ''rebinding''),
               (INFO, ''Scheduling lease %s in %.2fs'', ''renewal'')]\<rparr>"

section \<open>Sending and receiving (pyroute2/dhcp/dhcp4socket.py)\<close>

subsection \<open>The header codecs\<close>

text \<open>
  Modelled from the spec: the classes \<open>ethmsg\<close>, \<open>ip4msg\<close>, \<open>udpmsg\<close> and
  \<open>udp4_pseudo_header\<close> of \<open>pyroute2.protocols\<close> are not among the sources at hand.
  The spec (sections 4.3 and 4.4) gives their fields and sizes: an Ethernet header of 14
  bytes (destination, source, type), an IPv4 header of 20 bytes when built (total length,
  protocol, checksum, source, destination) whose end is found from its header-length
  field when read, a UDP header of 8 bytes (source port, destination port, length,
  checksum), and a pseudo-header (source, destination, protocol, length) for the UDP
  checksum only.  Each decoder checks that the buffer is long enough and raises
  \<open>ValueError\<close> otherwise.  The order of the fields in a header is that of the wire
  formats; the fields of the IPv4 header the spec does not name are left at zero, with
  version 4, five words of header and a time to live of 128.  Numbers are packed in
  network byte order, and packing a number that does not fit its field raises.
\<close>

type_synonym byte = "8 word"

datatype mac = Mac byte byte byte byte byte byte

datatype ip4addr = Ip4addr byte byte byte byte

fun mac_bytes :: "mac \<Rightarrow> byte list" where
  "mac_bytes (Mac a b c d e f) = [a, b, c, d, e, f]"

fun ip4addr_bytes :: "ip4addr \<Rightarrow> byte list" where
  "ip4addr_bytes (Ip4addr a b c d) = [a, b, c, d]"

fun mac_at :: "byte list \<Rightarrow> nat \<Rightarrow> mac" where
  "mac_at buf i =
     Mac (buf ! i) (buf ! (i + 1)) (buf ! (i + 2)) (buf ! (i + 3)) (buf ! (i + 4)) (buf ! (i + 5))"

fun ip4addr_at :: "byte list \<Rightarrow> nat \<Rightarrow> ip4addr" where
  "ip4addr_at buf i = Ip4addr (buf ! i) (buf ! (i + 1)) (buf ! (i + 2)) (buf ! (i + 3))"

definition pack_B :: "int \<Rightarrow> error + byte list" where
  "pack_B v = (if 0 \<le> v \<and> v < 256 then Inr [word_of_int v] else Inl StructError)"

definition pack_H :: "int \<Rightarrow> error + byte list" where
  "pack_H v =
     (if 0 \<le> v \<and> v < 65536
      then Inr [word_of_int (v div 256), word_of_int (v mod 256)]
      else Inl StructError)"

definition unpack_B :: "byte list \<Rightarrow> nat \<Rightarrow> int" where
  "unpack_B buf i = uint (buf ! i)"

definition unpack_H :: "byte list \<Rightarrow> nat \<Rightarrow> int" where
  "unpack_H buf i = 256 * uint (buf ! i) + uint (buf ! (i + 1))"

text \<open>The encodings of the fields of a header one after the other, up to the first error.\<close>

fun concat_packed :: "(error + byte list) list \<Rightarrow> error + byte list" where
  "concat_packed [] = Inr []"
| "concat_packed (Inl e # ps) = Inl e"
| "concat_packed (Inr bs # ps) =
     (case concat_packed ps of Inl e \<Rightarrow> Inl e | Inr rest \<Rightarrow> Inr (bs @ rest))"

record ethmsg =
  eth_msg_dst :: mac
  eth_msg_src :: mac
  eth_msg_type :: int

definition ethmsg_encode :: "ethmsg \<Rightarrow> error + byte list" where
  "ethmsg_encode m =
     concat_packed [Inr (mac_bytes (eth_msg_dst m)), Inr (mac_bytes (eth_msg_src m)),
                    pack_H (eth_msg_type m)]"

definition ethmsg_decode :: "byte list \<Rightarrow> nat \<Rightarrow> error + ethmsg \<times> nat" where
  "ethmsg_decode buf offset =
     (if length buf < offset + 14 then Inl ValueError
      else Inr (\<lparr>eth_msg_dst = mac_at buf offset, eth_msg_src = mac_at buf (offset + 6),
                  eth_msg_type = unpack_H buf (offset + 12)\<rparr>, offset + 14))"

record ip4msg =
  ip4_verlen :: int
  ip4_dsf :: int
  ip4_len :: int
  ip4_id :: int
  ip4_flags :: int
  ip4_ttl :: int
  ip4_proto :: int
  ip4_csum :: int
  ip4_src :: ip4addr
  ip4_dst :: ip4addr

definition ip4msg_encode :: "ip4msg \<Rightarrow> error + byte list" where
  "ip4msg_encode m =
     concat_packed [pack_B (ip4_verlen m), pack_B (ip4_dsf m), pack_H (ip4_len m),
                    pack_H (ip4_id m), pack_H (ip4_flags m), pack_B (ip4_ttl m),
                    pack_B (ip4_proto m), pack_H (ip4_csum m),
                    Inr (ip4addr_bytes (ip4_src m)), Inr (ip4addr_bytes (ip4_dst m))]"

definition ip4msg_decode :: "byte list \<Rightarrow> nat \<Rightarrow> error + ip4msg \<times> nat" where
  "ip4msg_decode buf offset =
     (if length buf < offset + 20 then Inl ValueError
      else
        (let header_len = nat (4 * (unpack_B buf offset AND 0xF)) in
         if header_len < 20 \<or> length buf < offset + header_len then Inl ValueError
         else Inr (\<lparr>ip4_verlen = unpack_B buf offset, ip4_dsf = unpack_B buf (offset + 1),
                     ip4_len = unpack_H buf (offset + 2), ip4_id = unpack_H buf (offset + 4),
                     ip4_flags = unpack_H buf (offset + 6), ip4_ttl = unpack_B buf (offset + 8),
                     ip4_proto = unpack_B buf (offset + 9),
                     ip4_csum = unpack_H buf (offset + 10),
                     ip4_src = ip4addr_at buf (offset + 12),
                     ip4_dst = ip4addr_at buf (offset + 16)\<rparr>, offset + header_len)))"

record udpmsg =
  udp_sport :: int
  udp_dport :: int
  udp_len :: int
  udp_csum :: int

definition udpmsg_encode :: "udpmsg \<Rightarrow> error + byte list" where
  "udpmsg_encode m =
     concat_packed [pack_H (udp_sport m), pack_H (udp_dport m), pack_H (udp_len m),
                    pack_H (udp_csum m)]"

definition udpmsg_decode :: "byte list \<Rightarrow> nat \<Rightarrow> error + udpmsg \<times> nat" where
  "udpmsg_decode buf offset =
     (if length buf < offset + 8 then Inl ValueError
      else Inr (\<lparr>udp_sport = unpack_H buf offset, udp_dport = unpack_H buf (offset + 2),
                  udp_len = unpack_H buf (offset + 4), udp_csum = unpack_H buf (offset + 6)\<rparr>,
                offset + 8))"

record udp4_pseudo_header =
  pseudo_src :: ip4addr
  pseudo_dst :: ip4addr
  pseudo_proto :: int
  pseudo_len :: int

definition udp4_pseudo_header_encode :: "udp4_pseudo_header \<Rightarrow> error + byte list" where
  "udp4_pseudo_header_encode m =
     concat_packed [Inr (ip4addr_bytes (pseudo_src m)), Inr (ip4addr_bytes (pseudo_dst m)),
                    pack_B 0, pack_B (pseudo_proto m), pack_H (pseudo_len m)]"

subsection \<open>The DHCP payload and the messages\<close>

text \<open>
  The codec of the DHCP payload (\<open>dhcp4msg\<close>) is outside the program: it is a parameter,
  a pair of an encoder to bytes and a decoder from a buffer at an offset, both of which
  may raise.  Of the payload the socket only touches the client hardware address
  \<open>chaddr\<close>; everything else is the \<open>body\<close>.  So is the checksum helper \<open>csum\<close> of the raw
  socket, a function from bytes to a 16-bit number.
\<close>

record 'b dhcp4msg =
  chaddr :: "mac option"
  body :: 'b

record 'b dhcp_codec =
  dhcp_encode :: "'b dhcp4msg \<Rightarrow> error + byte list"
  dhcp_decode :: "byte list \<Rightarrow> nat \<Rightarrow> error + 'b dhcp4msg"

record 'b SentDHCPMessage =
  dhcp :: "'b dhcp4msg"
  eth_src :: "mac option"
  eth_dst :: mac
  ip_src :: ip4addr
  ip_dst :: ip4addr
  sport :: int
  dport :: int

record 'b ReceivedDHCPMessage =
  rcv_dhcp :: "'b dhcp4msg"
  rcv_eth_src :: mac
  rcv_eth_dst :: mac
  rcv_ip_src :: ip4addr
  rcv_ip_dst :: ip4addr
  rcv_sport :: int
  rcv_dport :: int

text \<open>
  The socket: its port, the link-layer address of its interface, and the frames handed
  to \<open>sock_sendall\<close> so far.
\<close>

record AsyncDHCP4Socket =
  port :: int
  l2addr :: mac
  sent :: "byte list list"

subsection \<open>\<open>put\<close> and \<open>_decode_msg\<close>\<close>

text \<open>
  The part of \<open>put\<close> between the filling in of the addresses and the sending: the frame
  for a message, or the first error of an encoder.  The checksum of a header is computed
  over its encoding with the checksum field still at zero.
\<close>

definition frame_of ::
  "'b dhcp_codec \<Rightarrow> (byte list \<Rightarrow> 16 word) \<Rightarrow> int \<Rightarrow> mac \<Rightarrow> 'b SentDHCPMessage \<Rightarrow>
   error + byte list" where
  "frame_of codec csum self_port src msg =
     (case dhcp_encode codec (dhcp msg) of
        Inl e \<Rightarrow> Inl e
      | Inr data \<Rightarrow>
          (let dhcp_payload_size = int (length data);
               udp = \<lparr>udp_sport = self_port, udp_dport = dport msg,
                      udp_len = UDP_HEADER_SIZE + dhcp_payload_size, udp_csum = 0\<rparr>;
               udph = \<lparr>pseudo_src = ip_src msg, pseudo_dst = ip_dst msg,
                       pseudo_proto = IPPROTO_UDP,
                       pseudo_len = UDP_HEADER_SIZE + dhcp_payload_size\<rparr>
           in case concat_packed [udp4_pseudo_header_encode udph, udpmsg_encode udp] of
                Inl e \<Rightarrow> Inl e
              | Inr pseudo \<Rightarrow>
                  (let udp' = udp\<lparr>udp_csum := uint (csum (pseudo @ data))\<rparr>;
                       ip4 = \<lparr>ip4_verlen = 0x45, ip4_dsf = 0,
                              ip4_len = IPV4_HEADER_SIZE + UDP_HEADER_SIZE + dhcp_payload_size,
                              ip4_id = 0, ip4_flags = 0, ip4_ttl = 128,
                              ip4_proto = IPPROTO_UDP, ip4_csum = 0,
                              ip4_src = ip_src msg, ip4_dst = ip_dst msg\<rparr>
                   in case ip4msg_encode ip4 of
                        Inl e \<Rightarrow> Inl e
                      | Inr header \<Rightarrow>
                          (let ip4' = ip4\<lparr>ip4_csum := uint (csum header)\<rparr>;
                               eth = \<lparr>eth_msg_dst = eth_dst msg, eth_msg_src = src,
                                      eth_msg_type = ETHERTYPE_IP\<rparr>
                           in concat_packed [ethmsg_encode eth, ip4msg_encode ip4',
                                             udpmsg_encode udp', Inr data]))))"

text \<open>
  \<open>put\<close> returns its outcome, the message as the call leaves it, and the socket.  The
  check of the source port comes first; then the source address and the client hardware
  address are filled in where they are not set; then the frame is built and sent.
\<close>

definition put ::
  "'b dhcp_codec \<Rightarrow> (byte list \<Rightarrow> 16 word) \<Rightarrow> AsyncDHCP4Socket \<Rightarrow> 'b SentDHCPMessage \<Rightarrow>
   (error + unit) \<times> 'b SentDHCPMessage \<times> AsyncDHCP4Socket" where
  "put codec csum self msg =
     (if sport msg \<noteq> port self then (Inl ValueError, msg, self)
      else
        (let src = (case eth_src msg of None \<Rightarrow> l2addr self | Some a \<Rightarrow> a);
             hw = (case chaddr (dhcp msg) of None \<Rightarrow> src | Some a \<Rightarrow> a);
             msg' = msg\<lparr>eth_src := Some src, dhcp := (dhcp msg)\<lparr>chaddr := Some hw\<rparr>\<rparr>
         in case frame_of codec csum (port self) src msg' of
              Inl e \<Rightarrow> (Inl e, msg', self)
            | Inr data \<Rightarrow> (Inr (), msg', self\<lparr>sent := sent self @ [data]\<rparr>)))"

definition decode_msg :: "'b dhcp_codec \<Rightarrow> byte list \<Rightarrow> error + 'b ReceivedDHCPMessage" where
  "decode_msg codec data =
     (case ethmsg_decode data 0 of
        Inl e \<Rightarrow> Inl e
      | Inr (eth, eth_offset) \<Rightarrow>
          (case ip4msg_decode data eth_offset of
             Inl e \<Rightarrow> Inl e
           | Inr (ip4, ip4_offset) \<Rightarrow>
               (case udpmsg_decode data ip4_offset of
                  Inl e \<Rightarrow> Inl e
                | Inr (udp, udp_offset) \<Rightarrow>
                    (case dhcp_decode codec data udp_offset of
                       Inl e \<Rightarrow> Inl e
                     | Inr d \<Rightarrow>
                         Inr \<lparr>rcv_dhcp = d,
                              rcv_eth_src = eth_msg_src eth, rcv_eth_dst = eth_msg_dst eth,
                              rcv_ip_src = ip4_src ip4, rcv_ip_dst = ip4_dst ip4,
                              rcv_sport = udp_sport udp, rcv_dport = udp_dport udp\<rparr>))))"

text \<open>
  A small codec for examples: one byte that tells whether the client hardware address is
  set, its six bytes, then the body as it is.
\<close>

definition toy_codec :: "byte list dhcp_codec" where
  "toy_codec =
     \<lparr>dhcp_encode = (\<lambda>d. Inr ((case chaddr d of
                                   None \<Rightarrow> [0, 0, 0, 0, 0, 0, 0]
                                 | Some a \<Rightarrow> 1 # mac_bytes a) @ body d)),
      dhcp_decode = (\<lambda>buf offset.
         if length buf < offset + 7 then Inl ValueError
         else Inr \<lparr>chaddr = (if buf ! offset = 0 then None else Some (mac_at buf (offset + 1))),
                   body = drop (offset + 7) buf\<rparr>)\<rparr>"

definition example_socket :: AsyncDHCP4Socket where
  "example_socket = \<lparr>port = 68, l2addr = Mac 2 0 0 0 0 1, sent = []\<rparr>"

definition example_msg :: "byte list SentDHCPMessage" where
  "example_msg =
     \<lparr>dhcp = \<lparr>chaddr = None, body = [1, 1, 6, 0]\<rparr>, eth_src = None,
      eth_dst = Mac 0xff 0xff 0xff 0xff 0xff 0xff, ip_src = Ip4addr 0 0 0 0,
      ip_dst = Ip4addr 255 255 255 255, sport = 68, dport = 67\<rparr>"

text \<open>
  The example message as \<open>put\<close> leaves it, with both addresses filled in, and its frame
  when every checksum is computed as zero.
\<close>

definition example_sent :: "byte list SentDHCPMessage" where
  "example_sent =
     \<lparr>dhcp = \<lparr>chaddr = Some (Mac 2 0 0 0 0 1), body = [1, 1, 6, 0]\<rparr>,
      eth_src = Some (Mac 2 0 0 0 0 1),
      eth_dst = Mac 0xff 0xff 0xff 0xff 0xff 0xff, ip_src = Ip4addr 0 0 0 0,
      ip_dst = Ip4addr 255 255 255 255, sport = 68, dport = 67\<rparr>"

definition example_frame :: "byte list" where
  "example_frame =
     [255, 255, 255, 255, 255, 255, 2, 0, 0, 0, 0, 1, 8, 0,
      69, 0, 0, 39, 0, 0, 0, 0, 128, 17, 0, 0, 0, 0, 0, 0, 255, 255, 255, 255,
      0, 68, 0, 67, 0, 19, 0, 0,
      1, 2, 0, 0, 0, 0, 1, 1, 1, 6, 0]"

text \<open>
  A broadcast frame from a DHCP server (UDP port 67) to a client: Ethernet, IPv4 without
  options, UDP and four bytes of payload.  The low byte of the flags and fragment offset
  field and the low byte of the destination port are left open.
\<close>

definition dhcp_frame :: "8 word \<Rightarrow> 8 word \<Rightarrow> 8 word list" where
  "dhcp_frame frag dport_low =
     [0xff, 0xff, 0xff, 0xff, 0xff, 0xff, 0x02, 0, 0, 0, 0, 0x01, 0x08, 0x00,
      0x45, 0, 0, 0x20, 0, 0, frag, 0, 0x80, 0x11, 0, 0, 0, 0, 0, 0,
      0xff, 0xff, 0xff, 0xff, 0, 0x43, 0, dport_low, 0, 0x0c, 0, 0,
      1, 2, 3, 4]"

section \<open>Properties of transaction identifiers\<close>

lemma randint_range:
  assumes "a \<le> b"
  shows "a \<le> randint a b e \<and> randint a b e \<le> b"
proof -
  have pos: "0 < b - a + 1" using assms by simp
  have lo: "0 \<le> int e mod (b - a + 1)" using pos by simp
  have hi: "int e mod (b - a + 1) < b - a + 1" using pos by (rule pos_mod_bound)
  show ?thesis unfolding randint_def using lo hi by linarith
qed

lemma random_xid_prefix_range:
  "0x10 \<le> random_xid_prefix e \<and> random_xid_prefix e \<le> 0xFFFFFFF0"
  unfolding random_xid_prefix_def by (rule randint_range) simp

lemma nibble_and_15:
  fixes s :: int
  assumes "0 \<le> s" "s \<le> 15"
  shows "s AND 15 = s"
proof -
  have m: "(15::int) = mask 4" by (simp add: mask_eq_exp_minus_1)
  have "take_bit 4 s = s" using assms by (simp add: take_bit_int_eq_self)
  then show ?thesis unfolding m by (simp add: take_bit_eq_mask)
qed

lemma nibble_and_high:
  fixes s :: int
  assumes "0 \<le> s" "s \<le> 15"
  shows "s AND 0xFFFFFFF0 = 0"
proof -
  have "s AND 0xFFFFFFF0 = (s AND 15) AND 0xFFFFFFF0"
    using assms by (simp add: nibble_and_15)
  also have "\<dots> = s AND (15 AND 0xFFFFFFF0)" by (simp only: and.assoc)
  also have "\<dots> = 0" by simp
  finally show ?thesis .
qed

lemma tagged_low_nibble:
  fixes r s :: int
  assumes "0 \<le> s" "s \<le> 15"
  shows "((r AND 0xFFFFFFF0) OR s) AND 0xF = s"
proof -
  have "(r AND 0xFFFFFFF0) AND 15 = r AND (0xFFFFFFF0 AND 15)" by (simp only: and.assoc)
  also have "\<dots> = 0" by simp
  finally have hi: "(r AND 0xFFFFFFF0) AND 15 = 0" .
  have "((r AND 0xFFFFFFF0) OR s) AND 15 = ((r AND 0xFFFFFFF0) AND 15) OR (s AND 15)"
    by (rule bit.conj_disj_distrib2)
  then show ?thesis using hi assms by (simp add: nibble_and_15)
qed

lemma tagged_high_bits:
  fixes r s :: int
  assumes "0 \<le> s" "s \<le> 15"
  shows "((r AND 0xFFFFFFF0) OR s) AND 0xFFFFFFF0 = r AND 0xFFFFFFF0"
proof -
  have "((r AND 0xFFFFFFF0) OR s) AND 0xFFFFFFF0 =
        ((r AND 0xFFFFFFF0) AND 0xFFFFFFF0) OR (s AND 0xFFFFFFF0)"
    by (rule bit.conj_disj_distrib2)
  also have "(r AND 0xFFFFFFF0) AND 0xFFFFFFF0 = r AND 0xFFFFFFF0"
    by (simp add: and.assoc)
  finally show ?thesis using assms by (simp add: nibble_and_high)
qed

lemma tagged_below_2_32:
  fixes r s :: int
  assumes "0 \<le> s" "s \<le> 15"
  shows "(r AND 0xFFFFFFF0) OR s < 0x100000000"
proof -
  have a: "0 \<le> r AND 0xFFFFFFF0" by simp
  have b: "r AND 0xFFFFFFF0 < 2 ^ 32"
  proof -
    have "r AND 0xFFFFFFF0 \<le> 0xFFFFFFF0" by (rule AND_upper2) simp
    then show ?thesis by simp
  qed
  have c: "s < 2 ^ 32" using assms by simp
  have "(r AND 0xFFFFFFF0) OR s < 2 ^ 32"
    using a b c by (rule OR_upper)
  then show ?thesis by simp
qed

lemma tagged_not_all_ones:
  fixes r s :: int
  assumes "0 \<le> s" "s \<le> 15" "\<not> (r AND 0xFFFFFFF0 = 0xFFFFFFF0 \<and> s = 15)"
  shows "(r AND 0xFFFFFFF0) OR s < 0xFFFFFFFF"
proof -
  have ne: "(r AND 0xFFFFFFF0) OR s \<noteq> 0xFFFFFFFF"
  proof
    assume eq: "(r AND 0xFFFFFFF0) OR s = 0xFFFFFFFF"
    have "s = ((r AND 0xFFFFFFF0) OR s) AND 0xF"
      using assms(1,2) by (simp add: tagged_low_nibble)
    also have "\<dots> = 0xFFFFFFFF AND 0xF" by (simp only: eq)
    also have "\<dots> = 15" by simp
    finally have s15: "s = 15" .
    have "r AND 0xFFFFFFF0 = ((r AND 0xFFFFFFF0) OR s) AND 0xFFFFFFF0"
      using assms(1,2) by (simp add: tagged_high_bits)
    also have "\<dots> = 0xFFFFFFFF AND 0xFFFFFFF0" by (simp only: eq)
    also have "\<dots> = 0xFFFFFFF0" by simp
    finally have "r AND 0xFFFFFFF0 = 0xFFFFFFF0" .
    with s15 assms(3) show False by simp
  qed
  have "(r AND 0xFFFFFFF0) OR s < 0x100000000"
    using assms(1,2) by (rule tagged_below_2_32)
  with ne show ?thesis by simp
qed

text \<open>
  C3.  The claim: every \<open>Xid\<close> constructed without an explicit value has its low four bits
  equal to zero.  The docstring of \<open>random_xid_prefix\<close> promises the same, but
  \<open>random.randint(0x10, 0xFFFFFFF0)\<close> draws from every integer of the range: when it
  draws \<open>0x11\<close> the stored value is \<open>0x11\<close> and its low nibble is \<open>1\<close>.
\<close>

theorem Xid_init_random_low_nibble_nonzero:
  "Xid_init None 1 = Inr \<lparr>Xid_value = 0x11\<rparr> \<and> (0x11 :: int) AND 0xF = 1"
  by (simp add: Xid_init_def random_xid_prefix_def randint_def)

text \<open>
  C8.  Constructing an \<open>Xid\<close> with an explicit value greater than or equal to
  \<open>0xFFFFFFFF\<close> fails: the assertion raises, whatever the random source holds, and
  no \<open>Xid\<close> is built.  The constructor reads and writes no other state.
\<close>

theorem Xid_init_rejects_out_of_range:
  assumes "0xFFFFFFFF \<le> v"
  shows "Xid_init (Some v) entropy = Inl AssertionError"
  using assms by (simp add: Xid_init_def)

theorem Xid_init_rejects_out_of_range_witness:
  "(0xFFFFFFFF :: int) \<le> 0xFFFFFFFF \<and> Xid_init (Some 0xFFFFFFFF) 0 = Inl AssertionError"
  using Xid_init_rejects_out_of_range [of "0xFFFFFFFF" 0] by simp

text \<open>
  C10.  The constructor applies no lower bound to an explicit value: every integer
  strictly below \<open>0xFFFFFFFF\<close>, negative ones included, is accepted and stored as it is.
\<close>

theorem Xid_init_no_lower_bound:
  assumes "v < 0xFFFFFFFF"
  shows "Xid_init (Some v) entropy = Inr \<lparr>Xid_value = v\<rparr>"
  using assms by (simp add: Xid_init_def)

theorem Xid_init_no_lower_bound_witness:
  "(-1 :: int) < 0xFFFFFFFF \<and> Xid_init (Some (-1)) 0 = Inr \<lparr>Xid_value = -1\<rparr>"
  using Xid_init_no_lower_bound [of "-1" 0] by simp


lemma for_state_returns:
  assumes "0 \<le> s" and "s \<le> 15" and "\<not> (random_part x = 0xFFFFFFF0 \<and> s = 15)"
  shows "for_state x s = Inr \<lparr>Xid_value = random_part x OR s\<rparr>"
proof -
  have "random_part x OR s < 0xFFFFFFFF"
    unfolding random_part_def using assms(1,2) assms(3) [unfolded random_part_def]
    by (rule tagged_not_all_ones)
  then show ?thesis by (simp add: for_state_def Xid_init_def)
qed




section \<open>Properties of the packet filter\<close>

lemma jeq_port:
  fixes A :: "32 word"
  assumes "0 \<le> p" "p < 2^32"
  shows "(A = word_of_int p) = (uint A = p)"
proof
  assume "A = word_of_int p"
  then have "uint A = take_bit 32 p" by (simp add: uint_word_of_int_eq)
  also have "\<dots> = p" using assms by (simp add: take_bit_int_eq_self)
  finally show "uint A = p" .
next
  assume "uint A = p"
  then have "word_of_int p = (word_of_int (uint A) :: 32 word)" by simp
  then show "A = word_of_int p" by simp
qed

lemma uint_byte_bound: "uint (a :: 8 word) < 256"
  using uint_bounded [of a] by simp

lemma take_bit_32_byte: "take_bit 32 (uint (b :: 8 word)) = uint b"
proof (rule take_bit_int_eq_self)
  show "0 \<le> uint b" by simp
  have "uint b < 256" by (rule uint_byte_bound)
  then show "uint b < 2 ^ 32" by simp
qed

lemma half_value: 
  fixes a b :: "8 word"
  shows "uint (push_bit 8 (ucast a) OR ucast b :: 32 word) = 256 * uint a + uint b"
proof -
  have a: "uint (push_bit 8 (ucast a :: 32 word)) = push_bit 8 (uint a)"
  proof -
    have "uint (push_bit 8 (ucast a :: 32 word)) = take_bit 32 (push_bit 8 (uint a))"
      by (simp add: unsigned_push_bit_eq unsigned_ucast_eq take_bit_32_byte)
    also have "\<dots> = push_bit 8 (uint a)"
      using uint_byte_bound [of a] by (simp add: take_bit_int_eq_self push_bit_eq_mult)
    finally show ?thesis .
  qed
  have b: "uint (ucast b :: 32 word) = uint b"
    by (simp add: unsigned_ucast_eq take_bit_32_byte)
  have "uint (push_bit 8 (ucast a) OR ucast b :: 32 word) = push_bit 8 (uint a) OR uint b"
    by (simp only: uint_or a b)
  also have "\<dots> = concat_bit 8 (uint b) (uint a)"
    by (simp add: concat_bit_def take_bit_int_eq_self uint_byte_bound or.commute)
  also have "\<dots> = uint b + push_bit 8 (uint a)"
    by (simp add: concat_bit_eq take_bit_int_eq_self uint_byte_bound)
  finally show ?thesis by (simp add: push_bit_eq_mult)
qed

lemma byte_value: "uint (ucast (b :: 8 word) :: 32 word) = uint b"
    by (simp add: unsigned_ucast_eq take_bit_32_byte)

lemma msh_value:
  fixes b :: "8 word"
  shows "uint (4 * ((ucast b :: 32 word) AND 0xf)) = 4 * (uint b AND 0xF)"
proof -
  have "uint ((ucast b :: 32 word) AND 0xf) = uint b AND 15"
    by (simp add: uint_and byte_value)
  moreover have "uint b AND 15 \<le> 15" by (rule AND_upper2) simp
  moreover have "0 \<le> uint b AND 15" by simp
  ultimately show ?thesis
    by (simp add: uint_mult_lem [THEN iffD1] uint_word_ariths take_bit_int_eq_self)
qed

lemma compile_listen_udp_port:
  "compile_bpf (listen_udp_port p) = Some (compiled_filter p)"
  by (simp add: listen_udp_port_def compiled_filter_def BPF_defs SKF_AD_OFF_def
      SKF_AD_VLAN_TAG_PRESENT_def IPPROTO_UDP_def)

lemma length_compiled_filter: "length (compiled_filter p) = 13"
  by (simp add: compiled_filter_def)

lemma load_byte_at:
  assumes "sint off = int n"
  shows "load_byte f off =
           (Byte n, if n < length (frame_bytes f)
                    then Some (ucast (frame_bytes f ! n)) else None)"
  using assms by (simp add: load_byte_def)

lemma load_half_at:
  assumes "sint off = int n"
  shows "load_half f off =
           (Half n, if n + 1 < length (frame_bytes f)
                    then Some (push_bit 8 (ucast (frame_bytes f ! n)) OR
                               ucast (frame_bytes f ! (n + 1)))
                    else None)"
  using assms by (simp add: load_half_def)

lemma word32_eq_iff_uint:
  fixes A :: "32 word"
  shows "(A = B) = (uint A = uint B)"
  by (simp add: word_uint_eq_iff)

lemma jset_frag:
  fixes A :: "32 word"
  shows "(A AND 8191 = 0) = (uint A AND 8191 = 0)"
proof -
  have "(A AND 8191 = 0) = (uint (A AND 8191) = 0)" by (simp add: uint_0_iff)
  also have "uint (A AND 8191) = uint A AND 8191" by (simp add: uint_and)
  finally show ?thesis .
qed

lemma msh_offset:
  fixes b :: "8 word"
  shows "sint (4 * ((ucast b :: 32 word) AND 0xf) + 16) = int (nat (4 * (uint b AND 0xF)) + 16)"
proof -
  have lo: "0 \<le> uint b AND 15" by simp
  have hi: "uint b AND 15 \<le> 15" by (rule AND_upper2) simp
  have m: "uint (4 * ((ucast b :: 32 word) AND 0xf)) = 4 * (uint b AND 0xF)"
    by (rule msh_value)
  have "uint (4 * ((ucast b :: 32 word) AND 0xf) + 16) =
        (uint (4 * ((ucast b :: 32 word) AND 0xf)) + uint (16 :: 32 word)) mod 2 ^ LENGTH(32)"
    by (rule uint_word_ariths(1))
  also have "\<dots> = (4 * (uint b AND 0xF) + 16) mod 2 ^ 32"
    by (simp only: m) simp
  also have "\<dots> = 4 * (uint b AND 0xF) + 16" using lo hi by simp
  finally have u: "uint (4 * ((ucast b :: 32 word) AND 0xf) + 16) = 4 * (uint b AND 0xF) + 16" .
  have "sint (4 * ((ucast b :: 32 word) AND 0xf) + 16) =
        signed_take_bit 31 (uint (4 * ((ucast b :: 32 word) AND 0xf) + 16))"
    by (simp add: sint_uint)
  also have "\<dots> = 4 * (uint b AND 0xF) + 16"
    unfolding u using lo hi by (intro signed_take_bit_int_eq_self) simp_all
  finally show ?thesis using lo by simp
qed

lemma run_step:
  assumes "pc < 13"
  shows "bpf_run_from (compiled_filter p) f pc s =
     (case bpf_exec f (compiled_filter p ! pc) s of
        Continue s' off \<Rightarrow> bpf_run_from (compiled_filter p) f (pc + 1 + off) s'
      | Verdict v flds \<Rightarrow> Verdict v flds
      | Fault \<Rightarrow> Fault)"
  using assms by (subst bpf_run_from.simps) (simp add: length_compiled_filter)

lemma run_12: "bpf_run_from (compiled_filter p) f 12 s = Verdict 0 (fields_read s)"
proof -
  have exec: "bpf_exec f (compiled_filter p ! 12) s = Verdict 0 (fields_read s)"
    by (simp add: compiled_filter_def bpf_exec_def BPF_defs)
  show ?thesis by (subst run_step) (simp_all add: exec)
qed

lemma run_11: "bpf_run_from (compiled_filter p) f 11 s = Verdict 65535 (fields_read s)"
proof -
  have exec: "bpf_exec f (compiled_filter p ! 11) s = Verdict 65535 (fields_read s)"
    by (simp add: compiled_filter_def bpf_exec_def BPF_defs)
  show ?thesis by (subst run_step) (simp_all add: exec)
qed

lemma run_10:
  "bpf_run_from (compiled_filter p) f 10 s =
     Verdict (if reg_A s = word_of_int p then 65535 else 0) (fields_read s)"
proof -
  have exec: "bpf_exec f (compiled_filter p ! 10) s =
                Continue s (if reg_A s = word_of_int p then 0 else 1)"
    by (simp add: compiled_filter_def bpf_exec_def BPF_defs)
  show ?thesis by (subst run_step) (simp_all add: exec run_11 run_12)
qed

lemma half_is_port:
  fixes a b :: "8 word"
  assumes "0 \<le> p" "p < 2 ^ 32"
  shows "(push_bit 8 (ucast a) OR ucast b = (word_of_int p :: 32 word)) =
         (256 * uint a + uint b = p)"
  using assms by (simp add: jeq_port half_value)

lemma run_9:
  assumes "0 \<le> p" "p < 2 ^ 32" "sint (reg_X s + 16) = int off"
  shows "bpf_run_from (compiled_filter p) f 9 s =
           Verdict (if u16_at f off = Some p then 65535 else 0) (fields_read s @ [Half off])"
proof -
  have exec: "bpf_exec f (compiled_filter p ! 9) s =
                load_into (\<lambda>s v. s\<lparr>reg_A := v\<rparr>) s (load_half f (reg_X s + 16))"
    by (simp add: compiled_filter_def bpf_exec_def BPF_defs)
  show ?thesis
    by (subst run_step)
       (simp_all add: exec load_half_at [OF assms(3)] load_into_def run_10 u16_at_def
          half_is_port [OF assms(1,2)])
qed

lemma run_8:
  assumes "0 \<le> p" "p < 2 ^ 32"
  shows "bpf_run_from (compiled_filter p) f 8 s =
           (if u8_at f 14 = None then Verdict 0 (fields_read s @ [Byte 14])
            else Verdict (if udp_dport_is p f then 65535 else 0)
                   (fields_read s @ [Byte 14, Half (udp_dport_offset f)]))"
proof -
  have exec: "bpf_exec f (compiled_filter p ! 8) s =
                load_into (\<lambda>s v. s\<lparr>reg_X := 4 * (v AND 0xf)\<rparr>) s (load_byte f 14)"
    by (simp add: compiled_filter_def bpf_exec_def BPF_defs)
  have at: "load_byte f 14 =
              (Byte 14, if 14 < length (frame_bytes f)
                        then Some (ucast (frame_bytes f ! 14)) else None)"
    by (rule load_byte_at) simp
  show ?thesis
  proof (cases "14 < length (frame_bytes f)")
    case False
    then show ?thesis
      by (subst run_step) (simp_all add: exec at load_into_def u8_at_def)
  next
    case True
    have off: "udp_dport_offset f = nat (4 * (uint (frame_bytes f ! 14) AND 0xF)) + 16"
      using True by (simp add: udp_dport_offset_def u8_at_def)
    have "bpf_run_from (compiled_filter p) f 9
            (s\<lparr>fields_read := fields_read s @ [Byte 14],
               reg_X := 4 * (ucast (frame_bytes f ! 14) AND 0xf)\<rparr>) =
          Verdict (if u16_at f (udp_dport_offset f) = Some p then 65535 else 0)
            (fields_read s @ [Byte 14, Half (udp_dport_offset f)])"
      using run_9 [OF assms, where off = "udp_dport_offset f" and f = f and
          s = "s\<lparr>fields_read := fields_read s @ [Byte 14],
                 reg_X := 4 * (ucast (frame_bytes f ! 14) AND 0xf)\<rparr>"]
      by (simp add: off msh_offset)
    then show ?thesis
      using True
      by (subst run_step) (simp_all add: exec at load_into_def u8_at_def udp_dport_is_def)
  qed
qed

lemma run_7:
  assumes "0 \<le> p" "p < 2 ^ 32"
  shows "bpf_run_from (compiled_filter p) f 7 s =
           (if reg_A s AND 8191 \<noteq> 0 then Verdict 0 (fields_read s)
            else bpf_run_from (compiled_filter p) f 8 s)"
proof -
  have exec: "bpf_exec f (compiled_filter p ! 7) s =
                Continue s (if reg_A s AND 8191 \<noteq> 0 then 4 else 0)"
    by (simp add: compiled_filter_def bpf_exec_def BPF_defs)
  show ?thesis by (subst run_step) (simp_all add: exec run_12)
qed

lemma run_6:
  assumes "0 \<le> p" "p < 2 ^ 32"
  shows "bpf_run_from (compiled_filter p) f 6 s =
           (if unfragmented f
            then Verdict (if udp_dport_is p f then 65535 else 0)
                   (fields_read s @ [Half 20, Byte 14, Half (udp_dport_offset f)])
            else Verdict 0 (fields_read s @ [Half 20]))"
proof -
  have exec: "bpf_exec f (compiled_filter p ! 6) s =
                load_into (\<lambda>s v. s\<lparr>reg_A := v\<rparr>) s (load_half f 20)"
    by (simp add: compiled_filter_def bpf_exec_def BPF_defs)
  have at: "load_half f 20 =
              (Half 20, if 20 + 1 < length (frame_bytes f)
                        then Some (push_bit 8 (ucast (frame_bytes f ! 20)) OR
                                   ucast (frame_bytes f ! (20 + 1)))
                        else None)"
    by (rule load_half_at) simp
  show ?thesis
  proof (cases "21 < length (frame_bytes f)")
    case False
    then show ?thesis
      by (subst run_step) (simp_all add: exec at load_into_def unfragmented_def u16_at_def)
  next
    case True
    then have b14: "u8_at f 14 = Some (uint (frame_bytes f ! 14))" by (simp add: u8_at_def)
    show ?thesis
      using True b14
      by (subst run_step)
         (simp_all add: exec at load_into_def unfragmented_def u16_at_def
            run_7 [OF assms] run_8 [OF assms] jset_frag half_value)
  qed
qed

lemma run_5:
  assumes "0 \<le> p" "p < 2 ^ 32"
  shows "bpf_run_from (compiled_filter p) f 5 s =
           (if reg_A s = 17 then bpf_run_from (compiled_filter p) f 6 s
            else Verdict 0 (fields_read s))"
proof -
  have exec: "bpf_exec f (compiled_filter p ! 5) s =
                Continue s (if reg_A s = 17 then 0 else 6)"
    by (simp add: compiled_filter_def bpf_exec_def BPF_defs)
  show ?thesis by (subst run_step) (simp_all add: exec run_12)
qed

lemma byte_is_17:
  fixes b :: "8 word"
  shows "((ucast b :: 32 word) = 17) = (uint b = 17)"
  using jeq_port [of 17 "ucast b"] by (simp add: byte_value)

lemma half_is_0x0800:
  fixes a b :: "8 word"
  shows "(push_bit 8 (ucast a) OR ucast b = (0x0800 :: 32 word)) = (256 * uint a + uint b = 0x0800)"
  using half_is_port [of "0x0800" a b] by simp

lemma run_4:
  assumes "0 \<le> p" "p < 2 ^ 32"
  shows "bpf_run_from (compiled_filter p) f 4 s =
           (if protocol_is_udp f
            then bpf_run_from (compiled_filter p) f 6
                   (s\<lparr>fields_read := fields_read s @ [Byte 23],
                      reg_A := ucast (frame_bytes f ! 23)\<rparr>)
            else Verdict 0 (fields_read s @ [Byte 23]))"
proof -
  have exec: "bpf_exec f (compiled_filter p ! 4) s =
                load_into (\<lambda>s v. s\<lparr>reg_A := v\<rparr>) s (load_byte f 23)"
    by (simp add: compiled_filter_def bpf_exec_def BPF_defs)
  have at: "load_byte f 23 =
              (Byte 23, if 23 < length (frame_bytes f)
                        then Some (ucast (frame_bytes f ! 23)) else None)"
    by (rule load_byte_at) simp
  show ?thesis
    by (subst run_step)
       (simp_all add: exec at load_into_def protocol_is_udp_def u8_at_def IPPROTO_UDP_def
          run_5 [OF assms] byte_is_17)
qed

lemma run_3:
  assumes "0 \<le> p" "p < 2 ^ 32"
  shows "bpf_run_from (compiled_filter p) f 3 s =
           (if reg_A s = 0x0800 then bpf_run_from (compiled_filter p) f 4 s
            else Verdict 0 (fields_read s))"
proof -
  have exec: "bpf_exec f (compiled_filter p ! 3) s =
                Continue s (if reg_A s = 0x0800 then 0 else 8)"
    by (simp add: compiled_filter_def bpf_exec_def BPF_defs)
  show ?thesis by (subst run_step) (simp_all add: exec run_12)
qed

lemma run_2:
  assumes "0 \<le> p" "p < 2 ^ 32"
  shows "bpf_run_from (compiled_filter p) f 2 s =
           (if ethertype_is_ipv4 f
            then bpf_run_from (compiled_filter p) f 4
                   (s\<lparr>fields_read := fields_read s @ [Half 12],
                      reg_A := push_bit 8 (ucast (frame_bytes f ! 12)) OR
                               ucast (frame_bytes f ! 13)\<rparr>)
            else Verdict 0 (fields_read s @ [Half 12]))"
proof -
  have exec: "bpf_exec f (compiled_filter p ! 2) s =
                load_into (\<lambda>s v. s\<lparr>reg_A := v\<rparr>) s (load_half f 12)"
    by (simp add: compiled_filter_def bpf_exec_def BPF_defs)
  have at: "load_half f 12 =
              (Half 12, if 12 + 1 < length (frame_bytes f)
                        then Some (push_bit 8 (ucast (frame_bytes f ! 12)) OR
                                   ucast (frame_bytes f ! (12 + 1)))
                        else None)"
    by (rule load_half_at) simp
  show ?thesis
    by (subst run_step)
       (simp_all add: exec at load_into_def ethertype_is_ipv4_def u16_at_def
          run_3 [OF assms] half_is_0x0800)
qed

lemma run_1:
  assumes "0 \<le> p" "p < 2 ^ 32"
  shows "bpf_run_from (compiled_filter p) f (Suc 0) s =
           (if reg_A s = 0 then bpf_run_from (compiled_filter p) f 2 s
            else Verdict 0 (fields_read s))"
proof -
  have exec: "bpf_exec f (compiled_filter p ! Suc 0) s =
                Continue s (if reg_A s = 0 then 0 else 10)"
    by (simp add: compiled_filter_def bpf_exec_def BPF_defs)
  have two: "Suc (Suc 0) = 2" by simp
  show ?thesis by (subst run_step) (simp_all add: exec run_12 two)
qed

lemma run_0:
  assumes "0 \<le> p" "p < 2 ^ 32"
  shows "bpf_run_from (compiled_filter p) f 0 s =
           (if no_vlan_tag f
            then bpf_run_from (compiled_filter p) f 2
                   (s\<lparr>fields_read := fields_read s @ [Ancillary 48], reg_A := 0\<rparr>)
            else Verdict 0 (fields_read s @ [Ancillary 48]))"
proof -
  have exec: "bpf_exec f (compiled_filter p ! 0) s =
                load_into (\<lambda>s v. s\<lparr>reg_A := v\<rparr>) s (load_byte f 0xFFFFF030)"
    by (simp add: compiled_filter_def bpf_exec_def BPF_defs)
  have at: "load_byte f 0xFFFFF030 =
              (Ancillary 48, Some (if vlan_tag_present f then 1 else 0))"
    by (simp add: load_byte_def load_special_def SKF_AD_OFF_def SKF_AD_VLAN_TAG_PRESENT_def)
  show ?thesis
    by (subst run_step)
       (simp_all add: exec at load_into_def no_vlan_tag_def run_1 [OF assms])
qed

lemma filter_run:
  assumes "0 \<le> p" and "p < 2 ^ 32"
  shows "bpf_run (listen_udp_port p) f =
           Verdict
             (if no_vlan_tag f \<and> ethertype_is_ipv4 f \<and> protocol_is_udp f \<and>
                 unfragmented f \<and> udp_dport_is p f
              then 65535 else 0)
             (concat (take (Suc (length (takeWhile (\<lambda>c. c)
                [no_vlan_tag f, ethertype_is_ipv4 f, protocol_is_udp f,
                 unfragmented f, udp_dport_is p f])))
                [[Ancillary 48], [Half 12], [Byte 23], [Half 20],
                 [Byte 14, Half (udp_dport_offset f)]]))"
  by (simp add: bpf_run_def compile_listen_udp_port run_0 [OF assms] run_2 [OF assms]
      run_4 [OF assms] run_6 [OF assms])

lemma compiled_filter_mod: "compiled_filter (p mod 2 ^ 32) = compiled_filter p"
proof -
  have "(word_of_int (p mod 2 ^ 32) :: 32 word) = word_of_int p"
    by (simp add: word_of_int_eq_iff take_bit_eq_mod)
  then show ?thesis by (simp add: compiled_filter_def)
qed

lemma bpf_run_mod:
  "bpf_run (listen_udp_port (p mod 2 ^ 32)) f = bpf_run (listen_udp_port p) f"
  by (simp only: bpf_run_def compile_listen_udp_port compiled_filter_mod)

lemma upt_13: "[0 ..< 13] = [0, 1, 2, 3, 4, 5, 6, 7, 8, 9, 10, 11, 12 :: nat]"
  by code_simp

lemma jumps_in_bounds_compiled_filter: "jumps_in_bounds (compiled_filter p)"
  unfolding jumps_in_bounds_def length_compiled_filter upt_13
  by (simp add: compiled_filter_def successors_def BPF_defs)

text \<open>
  C2.  For every port that fits the 32-bit operand of an instruction (every 16-bit port
  does), the run of the program built by \<open>listen_udp_port\<close> on a frame ends with the
  verdict 65535 (accept) if and only if the frame has no VLAN tag, its 16-bit Ethertype
  at offset 12 is 0x0800, its 8-bit protocol at offset 23 is UDP, the low 13 bits of the
  16-bit field at offset 20 are zero, and the 16-bit field at 4 times the low nibble of
  byte 14, plus 16, is the port; in every other case the verdict is 0 (drop).  The checks
  are made in this order and the first that fails ends the run: the fields the run has
  asked for are those of the checks up to and including the first failing one.
\<close>

theorem listen_udp_port_filter:
  assumes "0 \<le> p" and "p < 2 ^ 32"
  shows "bpf_run (listen_udp_port p) f =
           Verdict
             (if no_vlan_tag f \<and> ethertype_is_ipv4 f \<and> protocol_is_udp f \<and>
                 unfragmented f \<and> udp_dport_is p f
              then 65535 else 0)
             (concat (take (Suc (length (takeWhile (\<lambda>c. c)
                [no_vlan_tag f, ethertype_is_ipv4 f, protocol_is_udp f,
                 unfragmented f, udp_dport_is p f])))
                [[Ancillary 48], [Half 12], [Byte 23], [Half 20],
                 [Byte 14, Half (udp_dport_offset f)]]))"
  using assms by (rule filter_run)

text \<open>
  C9.  For every port and every frame the run of the program built by
  \<open>listen_udp_port\<close> ends with the verdict drop or accept, never in a fault; and every
  instruction of the program passes control only to later instructions within the
  program, so that no run can loop or leave the program.
\<close>

theorem listen_udp_port_terminates:
  "(verdict_of (bpf_run (listen_udp_port p) f) = Some 0 \<or>
    verdict_of (bpf_run (listen_udp_port p) f) = Some 65535) \<and>
   map_option jumps_in_bounds (compile_bpf (listen_udp_port p)) = Some True"
proof -
  have lo: "0 \<le> p mod 2 ^ 32" by simp
  have hi: "p mod 2 ^ 32 < 2 ^ 32" by simp
  have "verdict_of (bpf_run (listen_udp_port (p mod 2 ^ 32)) f) = Some 0 \<or>
        verdict_of (bpf_run (listen_udp_port (p mod 2 ^ 32)) f) = Some 65535"
    by (simp only: filter_run [OF lo hi] verdict_of.simps split: if_split) simp
  then have "verdict_of (bpf_run (listen_udp_port p) f) = Some 0 \<or>
             verdict_of (bpf_run (listen_udp_port p) f) = Some 65535"
    by (simp only: bpf_run_mod)
  then show ?thesis
    by (simp add: compile_listen_udp_port jumps_in_bounds_compiled_filter)
qed

lemmas check_defs =
  no_vlan_tag_def ethertype_is_ipv4_def protocol_is_udp_def unfragmented_def
  udp_dport_is_def udp_dport_offset_def u8_at_def u16_at_def IPPROTO_UDP_def

theorem listen_udp_port_filter_witness:
  "bpf_run (listen_udp_port 68) \<lparr>vlan_tag_present = False, frame_bytes = dhcp_frame 0 68\<rparr> =
     Verdict 65535 [Ancillary 48, Half 12, Byte 23, Half 20, Byte 14, Half 36] \<and>
   bpf_run (listen_udp_port 68) \<lparr>vlan_tag_present = False, frame_bytes = dhcp_frame 0 67\<rparr> =
     Verdict 0 [Ancillary 48, Half 12, Byte 23, Half 20, Byte 14, Half 36] \<and>
   bpf_run (listen_udp_port 68) \<lparr>vlan_tag_present = True, frame_bytes = dhcp_frame 0 68\<rparr> =
     Verdict 0 [Ancillary 48] \<and>
   bpf_run (listen_udp_port 68) \<lparr>vlan_tag_present = False, frame_bytes = dhcp_frame 1 68\<rparr> =
     Verdict 0 [Ancillary 48, Half 12, Byte 23, Half 20]"
proof -
  have p: "(0::int) \<le> 68" "(68::int) < 2 ^ 32" by simp_all
  show ?thesis
    by (simp add: listen_udp_port_filter [OF p] check_defs dhcp_frame_def)
qed

theorem listen_udp_port_terminates_witness:
  "verdict_of (bpf_run (listen_udp_port 68)
     \<lparr>vlan_tag_present = False, frame_bytes = take 30 (dhcp_frame 0 68)\<rparr>) = Some 0 \<and>
   map_option jumps_in_bounds (compile_bpf (listen_udp_port 68)) = Some True"
proof -
  have p: "(0::int) \<le> 68" "(68::int) < 2 ^ 32" by simp_all
  have "verdict_of (bpf_run (listen_udp_port 68)
     \<lparr>vlan_tag_present = False, frame_bytes = take 30 (dhcp_frame 0 68)\<rparr>) = Some 0"
    by (simp add: filter_run [OF p] check_defs dhcp_frame_def)
  then show ?thesis
    using listen_udp_port_terminates [of 68
        "\<lparr>vlan_tag_present = False, frame_bytes = take 30 (dhcp_frame 0 68)\<rparr>"]
    by simp
qed

section \<open>Properties of the lease timers\<close>

lemma cancelling_refl: "cancelling {} L L"
  by (simp add: cancelling_def)

lemma cancelling_trans:
  assumes "cancelling H1 L L1" "cancelling H2 L1 L2"
  shows "cancelling (H1 \<union> H2) L L2"
proof -
  from assms obtain cs1 cs2 where
    c1: "calls L1 = calls L @ map HandleCancel cs1" and
    c2: "calls L2 = calls L1 @ map HandleCancel cs2"
    by (auto simp: cancelling_def)
  have "calls L2 = calls L @ map HandleCancel (cs1 @ cs2)" using c1 c2 by simp
  then have ex: "\<exists>cs. calls L2 = calls L @ map HandleCancel cs" by blast
  show ?thesis
    using assms ex by (auto simp: cancelling_def)
qed

lemma cancelling_log: "cancelling {} L (log_record lv fmt a L)"
  by (simp add: cancelling_def log_record_def)

lemma cancelling_handle_cancel:
  assumes "h < length (handles L)"
  shows "cancelling {h} L (handle_cancel L h)"
proof -
  have "calls (handle_cancel L h) = calls L @ map HandleCancel [h]"
    by (simp add: handle_cancel_def)
  then have "\<exists>cs. calls (handle_cancel L h) = calls L @ map HandleCancel cs" by blast
  then show ?thesis using assms
    by (auto simp: cancelling_def handle_cancel_def nth_list_update)
qed

lemma cancelling_already:
  assumes "h < length (handles L)" "cancelled (handles L ! h)"
  shows "cancelling {h} L L"
  using assms by (auto simp: cancelling_def)

lemma reset_timer_slot:
  assumes "timers_getattr T n = Inr v" and "\<forall>h. v = Some h \<longrightarrow> h < length (handles L)"
  shows "\<exists>L'. reset_timer n T L = (Inr (), timers_setattr T n None, L') \<and>
              cancelling (set_option v) L L'"
proof (cases v)
  case None
  have "timers_setattr T n None = T"
    using assms(1) None by (auto simp: timers_getattr_def timers_setattr_def split: if_splits)
  then show ?thesis using assms(1) None by (simp add: reset_timer_def cancelling_refl)
next
  case (Some h)
  then have h: "h < length (handles L)" using assms(2) by simp
  show ?thesis
  proof (cases "cancelled (handles L ! h)")
    case True
    then show ?thesis using assms(1) Some h
      by (simp add: reset_timer_def cancelling_already)
  next
    case False
    have "cancelling ({} \<union> {h}) L
            (handle_cancel (log_record DEBUG ''Canceling %s timer'' n L) h)"
      by (rule cancelling_trans [OF cancelling_log cancelling_handle_cancel])
         (simp add: log_record_def h)
    then show ?thesis using assms(1) Some False
      by (simp add: reset_timer_def)
  qed
qed

lemma reset_timer_unknown:
  assumes "timers_getattr T n = Inl e"
  shows "reset_timer n T L = (Inl e, T, L)"
  using assms by (simp add: reset_timer_def)

lemma cancelling_length: "cancelling H L L' \<Longrightarrow> length (handles L') = length (handles L)"
  by (simp add: cancelling_def)

lemma set_held:
  "set (held T) = set_option (renewal T) \<union> set_option (rebinding T) \<union> set_option (expiration T)"
  by (cases "renewal T"; cases "rebinding T"; cases "expiration T") (auto simp: held_def)

lemma cancel_cancelling:
  assumes "\<forall>h \<in> set (held T). h < length (handles L)"
  shows "\<exists>L1. cancel T L = (Inr (), Timers_init, L1) \<and> cancelling (set (held T)) L L1"
proof -
  have v1: "\<forall>h. renewal T = Some h \<longrightarrow> h < length (handles L)"
    using assms by (auto simp: set_held)
  have v2: "\<forall>h. rebinding T = Some h \<longrightarrow> h < length (handles L)"
    using assms by (auto simp: set_held)
  have v3: "\<forall>h. expiration T = Some h \<longrightarrow> h < length (handles L)"
    using assms by (auto simp: set_held)
  have g1: "timers_getattr T ''renewal'' = Inr (renewal T)"
    by (simp add: timers_getattr_def)
  obtain L1 where r1: "reset_timer ''renewal'' T L =
        (Inr (), timers_setattr T ''renewal'' None, L1)"
    and c1: "cancelling (set_option (renewal T)) L L1"
    using reset_timer_slot [OF g1 v1] by blast
  let ?T1 = "timers_setattr T ''renewal'' None"
  have g2: "timers_getattr ?T1 ''rebinding'' = Inr (rebinding T)"
    by (simp add: timers_getattr_def timers_setattr_def)
  have v2': "\<forall>h. rebinding T = Some h \<longrightarrow> h < length (handles L1)"
    using v2 cancelling_length [OF c1] by simp
  obtain L2 where r2: "reset_timer ''rebinding'' ?T1 L1 =
        (Inr (), timers_setattr ?T1 ''rebinding'' None, L2)"
    and c2: "cancelling (set_option (rebinding T)) L1 L2"
    using reset_timer_slot [OF g2 v2'] by blast
  let ?T2 = "timers_setattr ?T1 ''rebinding'' None"
  have g3: "timers_getattr ?T2 ''expiration'' = Inr (expiration T)"
    by (simp add: timers_getattr_def timers_setattr_def)
  have v3': "\<forall>h. expiration T = Some h \<longrightarrow> h < length (handles L2)"
    using v3 cancelling_length [OF c1] cancelling_length [OF c2] by simp
  obtain L3 where r3: "reset_timer ''expiration'' ?T2 L2 =
        (Inr (), timers_setattr ?T2 ''expiration'' None, L3)"
    and c3: "cancelling (set_option (expiration T)) L2 L3"
    using reset_timer_slot [OF g3 v3'] by blast
  have T3: "timers_setattr ?T2 ''expiration'' None = Timers_init"
    by (simp add: timers_setattr_def Timers_init_def)
  have "cancel T L = (Inr (), Timers_init, L3)"
    by (simp add: cancel_def r1 r2 r3 T3)
  moreover have "cancelling (set (held T)) L L3"
    unfolding set_held by (rule cancelling_trans [OF cancelling_trans [OF c1 c2] c3])
  ultimately show ?thesis by blast
qed

lemma scheduling_refl: "scheduling L L"
  by (simp add: scheduling_def)

lemma scheduling_trans:
  assumes "scheduling L L1" "scheduling L1 L2"
  shows "scheduling L L2"
proof -
  from assms obtain new1 new2 ns1 ns2 where
    h1: "handles L1 = handles L @ new1" "\<forall>h \<in> set new1. \<not> cancelled h" and
    h2: "handles L2 = handles L1 @ new2" "\<forall>h \<in> set new2. \<not> cancelled h" and
    c1: "calls L1 = calls L @ map CallLater ns1" and
    c2: "calls L2 = calls L1 @ map CallLater ns2"
    by (auto simp: scheduling_def)
  have "handles L2 = handles L @ (new1 @ new2) \<and> (\<forall>h \<in> set (new1 @ new2). \<not> cancelled h)"
    using h1 h2 by auto
  then have ex1: "\<exists>new. handles L2 = handles L @ new \<and> (\<forall>h \<in> set new. \<not> cancelled h)"
    by blast
  have "calls L2 = calls L @ map CallLater (ns1 @ ns2)" using c1 c2 by simp
  then have ex2: "\<exists>ns. calls L2 = calls L @ map CallLater ns" by blast
  show ?thesis using assms ex1 ex2 by (simp add: scheduling_def)
qed

lemma scheduling_log: "scheduling L (log_record lv fmt a L)"
  by (simp add: scheduling_def log_record_def)

lemma scheduling_call_later:
  "call_later L d cb = (h, L') \<Longrightarrow> scheduling L L' \<and> h = length (handles L) \<and>
     length (handles L') = Suc (length (handles L))"
proof -
  assume a: "call_later L d cb = (h, L')"
  then have L': "L' = L\<lparr>handles := handles L @
            [\<lparr>when_due = clock L + d, callback = cb, cancelled = False, has_run = False\<rparr>],
        calls := calls L @ [CallLater (length (handles L))]\<rparr>" and h: "h = length (handles L)"
    by (auto simp: call_later_def)
  have "calls L' = calls L @ map CallLater [length (handles L)]" using L' by simp
  then have "\<exists>ns. calls L' = calls L @ map CallLater ns" by blast
  then show ?thesis using L' h by (simp add: scheduling_def)
qed

lemma scheduling_length:
  "scheduling L L' \<Longrightarrow> length (handles L) \<le> length (handles L')"
  by (auto simp: scheduling_def)

lemma getattr_cases:
  assumes "timers_getattr T n = Inr v"
  shows "(n = ''renewal'' \<and> v = renewal T) \<or> (n = ''rebinding'' \<and> v = rebinding T) \<or>
         (n = ''expiration'' \<and> v = expiration T)"
  using assms by (auto simp: timers_getattr_def split: if_splits)

lemma getattr_setattr_other:
  "m \<noteq> n \<Longrightarrow> timers_getattr (timers_setattr T n v) m = timers_getattr T m"
  by (auto simp: timers_getattr_def timers_setattr_def)

lemma getattr_setattr_same:
  "timers_getattr T n = Inr u \<Longrightarrow> timers_getattr (timers_setattr T n v) n = Inr v"
  by (auto simp: timers_getattr_def timers_setattr_def split: if_splits)

lemma held_setattr_empty_slot:
  assumes "timers_getattr T n = Inr None"
  shows "set (held (timers_setattr T n (Some h))) = insert h (set (held T))"
  using getattr_cases [OF assms]
  by (auto simp: set_held timers_setattr_def)

lemma distinct_held_setattr:
  assumes "timers_getattr T n = Inr None" "distinct (held T)" "h \<notin> set (held T)"
  shows "distinct (held (timers_setattr T n (Some h)))"
  using getattr_cases [OF assms(1)] assms(2,3)
  by (cases "renewal T"; cases "rebinding T"; cases "expiration T")
     (auto simp: held_def timers_setattr_def)

lemma reset_timer_empty: "timers_getattr T n = Inr None \<Longrightarrow> reset_timer n T L = (Inr (), T, L)"
  by (simp add: reset_timer_def)

lemma scheduling_handles_log:
  "handles (log_record lv fmt a L) = handles L"
  by (simp add: log_record_def)

lemma arm_step:
  assumes "timers_getattr T n = Inr None \<or> timers_getattr T n = Inl AttributeError"
  shows "(\<exists>e. arm_callbacks l ((n, cb) # rest) T L = (Inl e, T, L)) \<or>
         (\<exists>T1 L1. arm_callbacks l ((n, cb) # rest) T L = arm_callbacks l rest T1 L1 \<and>
            scheduling L L1 \<and>
            ((T1 = T \<and> handles L1 = handles L) \<or>
             (timers_getattr T n = Inr None \<and>
              T1 = timers_setattr T n (Some (length (handles L))) \<and>
              length (handles L1) = Suc (length (handles L)))))"
proof (cases "timers_getattr T n = Inr None")
  case False
  then have "timers_getattr T n = Inl AttributeError" using assms by simp
  then show ?thesis by (simp add: reset_timer_unknown)
next
  case True
  note r = reset_timer_empty [OF True]
  show ?thesis
  proof (cases "lease_getattr l (n @ ''_in'')")
    case (Inl e)
    then show ?thesis by (simp add: r)
  next
    case (Inr v)
    show ?thesis
    proof (cases v)
      case None
      have "arm_callbacks l ((n, cb) # rest) T L =
              arm_callbacks l rest T (log_record DEBUG ''Lease does not set a %s time'' n L)"
        by (simp add: r Inr None)
      then show ?thesis
        using scheduling_log scheduling_handles_log by blast
    next
      case (Some t)
      consider "t = 0" | "t < 0" | "0 < t" by linarith
      then show ?thesis
      proof cases
        case 1
        have "arm_callbacks l ((n, cb) # rest) T L =
                arm_callbacks l rest T (log_record DEBUG ''Lease does not set a %s time'' n L)"
          by (simp add: r Inr Some 1)
        then show ?thesis
          using scheduling_log scheduling_handles_log by blast
      next
        case 2
        have "arm_callbacks l ((n, cb) # rest) T L =
                arm_callbacks l rest T (log_record DEBUG ''Lease %s is in the past'' n L)"
          using 2 by (simp add: r Inr Some)
        then show ?thesis
          using scheduling_log scheduling_handles_log by blast
      next
        case 3
        let ?L0 = "log_record INFO ''Scheduling lease %s in %.2fs'' n L"
        obtain h L2 where cl: "call_later ?L0 t cb = (h, L2)" by (cases "call_later ?L0 t cb")
        from scheduling_call_later [OF cl]
        have s2: "scheduling ?L0 L2" and h: "h = length (handles L)"
          and len: "length (handles L2) = Suc (length (handles L))"
          by (simp_all add: scheduling_handles_log)
        have sch: "scheduling L L2" by (rule scheduling_trans [OF scheduling_log s2])
        have "arm_callbacks l ((n, cb) # rest) T L =
                arm_callbacks l rest (timers_setattr T n (Some (length (handles L)))) L2"
          using 3 cl h by (simp add: r Inr Some)
        then show ?thesis using sch len True by blast
      qed
    qed
  qed
qed

lemma arm_callbacks_effect:
  assumes "distinct (map fst cbs)"
    and "\<forall>n \<in> set (map fst cbs).
           timers_getattr T n = Inr None \<or> timers_getattr T n = Inl AttributeError"
    and "distinct (held T)"
    and "\<forall>h \<in> set (held T). h < length (handles L)"
    and "arm_callbacks l cbs T L = (r, T', L')"
  shows "scheduling L L' \<and> distinct (held T') \<and>
         set (held T') = set (held T) \<union> {length (handles L) ..< length (handles L')}"
  using assms
proof (induction cbs arbitrary: T L)
  case Nil
  then show ?case by (simp add: scheduling_refl)
next
  case (Cons a cbs)
  obtain n cb where a: "a = (n, cb)" by (cases a)
  have slot: "timers_getattr T n = Inr None \<or> timers_getattr T n = Inl AttributeError"
    using Cons.prems(2) a by simp
  from arm_step [OF slot, of l cb cbs L]
  consider (err) e where "arm_callbacks l ((n, cb) # cbs) T L = (Inl e, T, L)"
    | (skip) L1 where "arm_callbacks l ((n, cb) # cbs) T L = arm_callbacks l cbs T L1"
        "scheduling L L1" "handles L1 = handles L"
    | (sched) L1 where "arm_callbacks l ((n, cb) # cbs) T L =
          arm_callbacks l cbs (timers_setattr T n (Some (length (handles L)))) L1"
        "scheduling L L1" "timers_getattr T n = Inr None"
        "length (handles L1) = Suc (length (handles L))"
    by blast
  then show ?case
  proof cases
    case err
    then have "T' = T" "L' = L" using Cons.prems(5) a by simp_all
    then show ?thesis using Cons.prems(3) by (simp add: scheduling_refl)
  next
    case skip
    have rec: "arm_callbacks l cbs T L1 = (r, T', L')"
      using Cons.prems(5) a skip(1) by simp
    have "scheduling L1 L' \<and> distinct (held T') \<and>
          set (held T') = set (held T) \<union> {length (handles L1) ..< length (handles L')}"
    proof (rule Cons.IH [OF _ _ _ _ rec])
      show "distinct (map fst cbs)" using Cons.prems(1) by simp
      show "\<forall>n\<in>set (map fst cbs).
              timers_getattr T n = Inr None \<or> timers_getattr T n = Inl AttributeError"
        using Cons.prems(2) by simp
      show "distinct (held T)" by (rule Cons.prems(3))
      show "\<forall>h\<in>set (held T). h < length (handles L1)"
        using Cons.prems(4) skip(3) by simp
    qed
    then show ?thesis using skip(2,3) scheduling_trans by (auto simp: )
  next
    case sched
    let ?h = "length (handles L)"
    let ?T1 = "timers_setattr T n (Some ?h)"
    have rec: "arm_callbacks l cbs ?T1 L1 = (r, T', L')"
      using Cons.prems(5) a sched(1) by simp
    have fresh: "?h \<notin> set (held T)" using Cons.prems(4) by auto
    have heldT1: "set (held ?T1) = insert ?h (set (held T))"
      by (rule held_setattr_empty_slot [OF sched(3)])
    have "scheduling L1 L' \<and> distinct (held T') \<and>
          set (held T') = set (held ?T1) \<union> {length (handles L1) ..< length (handles L')}"
    proof (rule Cons.IH [OF _ _ _ _ rec])
      show "distinct (map fst cbs)" using Cons.prems(1) by simp
      show "\<forall>m\<in>set (map fst cbs).
              timers_getattr ?T1 m = Inr None \<or> timers_getattr ?T1 m = Inl AttributeError"
      proof
        fix m assume m: "m \<in> set (map fst cbs)"
        then have "m \<noteq> n" using Cons.prems(1) a by auto
        then have "timers_getattr ?T1 m = timers_getattr T m"
          by (rule getattr_setattr_other)
        moreover have "timers_getattr T m = Inr None \<or> timers_getattr T m = Inl AttributeError"
          using Cons.prems(2) m by auto
        ultimately show
          "timers_getattr ?T1 m = Inr None \<or> timers_getattr ?T1 m = Inl AttributeError"
          by simp
      qed
      show "distinct (held ?T1)"
        by (rule distinct_held_setattr [OF sched(3) Cons.prems(3) fresh])
      show "\<forall>h\<in>set (held ?T1). h < length (handles L1)"
        using Cons.prems(4) heldT1 sched(4) by auto
    qed
    moreover have "length (handles L1) \<le> length (handles L')"
      using calculation scheduling_length by blast
    ultimately show ?thesis
      using sched(2,4) heldT1 scheduling_trans [of L L1 L'] by auto
  qed
qed

lemma getattr_Timers_init:
  "timers_getattr Timers_init n = Inr None \<or> timers_getattr Timers_init n = Inl AttributeError"
  by (simp add: timers_getattr_def Timers_init_def)

lemma held_Timers_init: "held Timers_init = []"
  by (simp add: held_def Timers_init_def)

lemma arm_effect:
  assumes valid: "\<forall>h \<in> set (held T). h < length (handles L)"
    and names: "distinct (map fst cbs)"
    and arm: "arm T L l cbs = (r, T', L')"
  shows "\<exists>L1. cancelling (set (held T)) L L1 \<and> scheduling L1 L' \<and> distinct (held T') \<and>
           set (held T') = {length (handles L) ..< length (handles L')}"
proof -
  obtain L1 where c: "cancel T L = (Inr (), Timers_init, L1)"
    and cl: "cancelling (set (held T)) L L1"
    using cancel_cancelling [OF valid] by blast
  have len: "length (handles L1) = length (handles L)" by (rule cancelling_length [OF cl])
  show ?thesis
  proof (cases "loop_running L1")
    case False
    then have "T' = Timers_init" "L' = L1" using arm c by (simp_all add: arm_def)
    then have "scheduling L1 L' \<and> distinct (held T') \<and>
               set (held T') = {length (handles L) ..< length (handles L')}"
      using len by (simp add: scheduling_refl held_Timers_init)
    then show ?thesis using cl by blast
  next
    case True
    then have run: "arm_callbacks l cbs Timers_init L1 = (r, T', L')"
      using arm c by (simp add: arm_def)
    have "scheduling L1 L' \<and> distinct (held T') \<and>
          set (held T') = set (held Timers_init) \<union> {length (handles L1) ..< length (handles L')}"
      by (rule arm_callbacks_effect [OF names _ _ _ run])
         (simp_all add: getattr_Timers_init held_Timers_init)
    then show ?thesis using cl len by (auto simp: held_Timers_init)
  qed
qed

lemma dropWhile_cancels_schedules:
  "dropWhile is_handle_cancel (map HandleCancel cs @ map CallLater ns) = map CallLater ns"
proof -
  have "dropWhile is_handle_cancel (map HandleCancel cs @ map CallLater ns) =
        dropWhile is_handle_cancel (map CallLater ns)"
    by (rule dropWhile_append2) auto
  also have "\<dots> = map CallLater ns" by (cases ns) simp_all
  finally show ?thesis .
qed

lemma cancels_then_schedules_append:
  "cancels_then_schedules (map HandleCancel cs @ map CallLater ns)"
  unfolding cancels_then_schedules_def dropWhile_cancels_schedules
  by (simp add: list_all_iff)

lemma set_due:
  "set (due L t) = {h. h < length (handles L) \<and> \<not> cancelled (handles L ! h) \<and>
                       \<not> has_run (handles L ! h) \<and> when_due (handles L ! h) \<le> t}"
  by (auto simp: due_def)

text \<open>
  A new \<open>Timers\<close> object looks after the empty list of handles, and any object after the
  handles in its slots; a call scheduled by another user of the loop, a run of the loop
  and \<open>cancel\<close> leave the handles looked after.
\<close>

lemma timers_own_init: "timers_own [] Timers_init L"
  by (simp add: timers_own_def held_Timers_init)

lemma timers_own_held:
  assumes "list_all (\<lambda>h. h < length (handles L)) (held T)"
  shows "timers_own (held T) T L"
  using assms by (simp add: timers_own_def list_all_iff)

lemma timers_own_call_later:
  assumes "timers_own own T L"
  shows "timers_own own T (snd (call_later L delay cb))"
  using assms by (auto simp: timers_own_def call_later_def list_all_iff nth_append)

lemma timers_own_run_until:
  assumes "timers_own own T L"
  shows "timers_own own T (snd (run_until L t))"
  using assms by (auto simp: timers_own_def run_until_def list_all_iff)

lemma timers_own_cancel:
  assumes "timers_own own T L" and "cancel T L = (r, T', L')"
  shows "timers_own own T' L' \<and> list_all (\<lambda>h. cancelled (handles L' ! h)) own"
proof -
  have valid: "\<forall>h \<in> set (held T). h < length (handles L)"
    using assms(1) by (auto simp: timers_own_def list_all_iff)
  obtain L1 where c: "cancel T L = (Inr (), Timers_init, L1)"
    and cl: "cancelling (set (held T)) L L1"
    using cancel_cancelling [OF valid] by blast
  have eq: "T' = Timers_init" "L' = L1" using c assms(2) by simp_all
  have len: "length (handles L1) = length (handles L)" by (rule cancelling_length [OF cl])
  have "\<forall>h \<in> set own. h < length (handles L1) \<and> cancelled (handles L1 ! h)"
  proof
    fix h assume h: "h \<in> set own"
    then have lt: "h < length (handles L)"
      and live: "cancelled (handles L ! h) \<or> h \<in> set (held T)"
      using assms(1) by (auto simp: timers_own_def list_all_iff)
    have "handles L1 ! h =
            (if h \<in> set (held T) then (handles L ! h)\<lparr>cancelled := True\<rparr> else handles L ! h)"
      using cl lt by (simp add: cancelling_def)
    then show "h < length (handles L1) \<and> cancelled (handles L1 ! h)"
      using live lt len by auto
  qed
  then show ?thesis
    unfolding eq by (simp add: timers_own_def held_Timers_init list_all_iff)
qed

text \<open>
  C5.  After a call to \<open>arm\<close>, whatever it returns and whatever else is scheduled on the
  loop, every handle the object had scheduled before the call is cancelled; within the
  call all cancellations come before the first \<open>call_later\<close>; the slots refer to
  different handles, which are exactly the handles scheduled by this call and are live,
  so that each slot has at most one live handle and no other handle of the object is
  live; and whenever the loop runs later on, none of the earlier handles of the object
  is among those it runs.
\<close>

theorem arm_cancels_earlier_handles:
  assumes "timers_own own T L"
    and "distinct (map fst callbacks)"
    and "arm T L l callbacks = (r, T', L')"
  shows "list_all (\<lambda>h. cancelled (handles L' ! h)) own \<and>
         cancels_then_schedules (drop (length (calls L)) (calls L')) \<and>
         distinct (held T') \<and>
         set (held T') = {length (handles L) ..< length (handles L')} \<and>
         list_all (\<lambda>h. \<not> cancelled (handles L' ! h)) (held T') \<and>
         timers_own (own @ held T') T' L' \<and>
         set (due L' t) \<inter> set own = {}"
proof -
  have sub: "set (held T) \<subseteq> set own"
    and own: "\<forall>h \<in> set own. h < length (handles L) \<and>
                (cancelled (handles L ! h) \<or> h \<in> set (held T))"
    using assms(1) by (auto simp: timers_own_def list_all_iff)
  have valid: "\<forall>h \<in> set (held T). h < length (handles L)" using sub own by auto
  obtain L1 where cl: "cancelling (set (held T)) L L1" and sch: "scheduling L1 L'"
    and dT': "distinct (held T')"
    and hT': "set (held T') = {length (handles L) ..< length (handles L')}"
    using arm_effect [OF valid assms(2,3)] by blast
  have len1: "length (handles L1) = length (handles L)" by (rule cancelling_length [OF cl])
  obtain new where new: "handles L' = handles L1 @ new"
    and live: "\<forall>h \<in> set new. \<not> cancelled h"
    using sch by (auto simp: scheduling_def)
  have old: "\<And>h. h \<in> set own \<Longrightarrow> h < length (handles L) \<and> cancelled (handles L' ! h)"
  proof -
    fix h assume h: "h \<in> set own"
    then have lt: "h < length (handles L)"
      and c: "cancelled (handles L ! h) \<or> h \<in> set (held T)"
      using own by auto
    have "handles L1 ! h =
            (if h \<in> set (held T) then (handles L ! h)\<lparr>cancelled := True\<rparr> else handles L ! h)"
      using cl lt by (simp add: cancelling_def)
    then have "cancelled (handles L1 ! h)" using c by auto
    moreover have "handles L' ! h = handles L1 ! h"
      using new lt len1 by (simp add: nth_append)
    ultimately show "h < length (handles L) \<and> cancelled (handles L' ! h)" using lt by simp
  qed
  have c1: "list_all (\<lambda>h. cancelled (handles L' ! h)) own"
    using old by (simp add: list_all_iff)
  obtain cs ns where "calls L1 = calls L @ map HandleCancel cs"
    and "calls L' = calls L1 @ map CallLater ns"
    using cl sch by (auto simp: cancelling_def scheduling_def)
  then have "drop (length (calls L)) (calls L') = map HandleCancel cs @ map CallLater ns"
    by simp
  then have c2: "cancels_then_schedules (drop (length (calls L)) (calls L'))"
    by (simp only: cancels_then_schedules_append)
  have len': "length (handles L') = length (handles L) + length new" using new len1 by simp
  have c5: "list_all (\<lambda>h. \<not> cancelled (handles L' ! h)) (held T')"
    unfolding list_all_iff
  proof
    fix h assume "h \<in> set (held T')"
    then have h: "length (handles L) \<le> h" "h < length (handles L')" using hT' by simp_all
    then have "handles L' ! h = new ! (h - length (handles L))"
      using new len1 by (simp add: nth_append)
    moreover have "new ! (h - length (handles L)) \<in> set new"
      using h len' by simp
    ultimately show "\<not> cancelled (handles L' ! h)" using live by simp
  qed
  have c6: "timers_own (own @ held T') T' L'"
    unfolding timers_own_def list_all_iff
    using old hT' len' by fastforce
  have c7: "set (due L' t) \<inter> set own = {}"
    using old by (auto simp: set_due)
  show ?thesis using c1 c2 dT' hT' c5 c6 c7 by simp
qed

lemma lease_getattr_slot:
  assumes "n \<in> set slot_names"
  shows "lease_getattr l (n @ ''_in'') = Inr (time_remaining l n)"
  using assms by (auto simp: slot_names_def time_remaining_def lease_getattr_def)

lemma armed_with_stable:
  assumes "armed_with T L n0 n deadline cb"
    and "timers_getattr T' n = timers_getattr T n"
    and "handles L' = handles L @ new"
  shows "armed_with T' L' n0 n deadline cb"
  using assms by (auto simp: armed_with_def nth_append split: sum.splits option.splits)

lemma slot_outcome_stable:
  assumes "slot_outcome l T L n0 now (n, cb)"
    and "timers_getattr T' n = timers_getattr T n"
    and "handles L' = handles L @ new"
  shows "slot_outcome l T' L' n0 now (n, cb)"
  using assms armed_with_stable [of T L n0 n _ cb T' L' new]
  by (auto simp: slot_outcome_def split: option.splits if_splits)

lemma arm_callbacks_outcomes:
  assumes "distinct (map fst cbs)"
    and "set (map fst cbs) \<subseteq> set slot_names"
    and "\<forall>n \<in> set (map fst cbs). timers_getattr T n = Inr None"
    and "n0 \<le> length (handles L)"
    and "arm_callbacks l cbs T L = (r, T', L')"
  shows "r = Inr () \<and> clock L' = clock L \<and>
         handles L' = handles L @ new_handles l (clock L) cbs \<and>
         logged L' = logged L @ map (log_for l) cbs \<and>
         (\<forall>m. m \<notin> set (map fst cbs) \<longrightarrow> timers_getattr T' m = timers_getattr T m) \<and>
         list_all (slot_outcome l T' L' n0 (clock L)) cbs"
  using assms
proof (induction cbs arbitrary: T L)
  case Nil
  then show ?case by (simp add: new_handles_def)
next
  case (Cons a cbs)
  obtain n cb where a: "a = (n, cb)" by (cases a)
  have n: "n \<in> set slot_names" and nrest: "n \<notin> set (map fst cbs)"
    and empty: "timers_getattr T n = Inr None"
    using Cons.prems(1,2,3) a by auto
  note r = reset_timer_empty [OF empty]
  note g = lease_getattr_slot [OF n]
  have d: "distinct (map fst cbs)" and sub: "set (map fst cbs) \<subseteq> set slot_names"
    using Cons.prems(1,2) by auto
  show ?case
  proof (cases "\<exists>t. time_remaining l n = Some t \<and> 0 < t")
    case False
    define fmt where "fmt = fst (snd (log_for l (n, cb :: 'a)))"
    define lv where "lv = fst (log_for l (n, cb :: 'a))"
    have lf: "log_for l (n, cb) = (lv, fmt, n)"
      by (auto simp: lv_def fmt_def log_for_def split: option.splits)
    let ?L1 = "log_record lv fmt n L"
    have step: "arm_callbacks l ((n, cb) # cbs) T L = arm_callbacks l cbs T ?L1"
      using False
      by (cases "time_remaining l n")
         (auto simp: r g lv_def fmt_def log_for_def not_less)
    have rec: "arm_callbacks l cbs T ?L1 = (r, T', L')"
      using Cons.prems(5) a step by simp
    have IH: "r = Inr () \<and> clock L' = clock ?L1 \<and>
         handles L' = handles ?L1 @ new_handles l (clock ?L1) cbs \<and>
         logged L' = logged ?L1 @ map (log_for l) cbs \<and>
         (\<forall>m. m \<notin> set (map fst cbs) \<longrightarrow> timers_getattr T' m = timers_getattr T m) \<and>
         list_all (slot_outcome l T' L' n0 (clock ?L1)) cbs"
    proof (rule Cons.IH [OF d sub _ _ rec])
      show "\<forall>n\<in>set (map fst cbs). timers_getattr T n = Inr None"
        using Cons.prems(3) by simp
      show "n0 \<le> length (handles ?L1)" using Cons.prems(4) by (simp add: log_record_def)
    qed
    have nh: "new_handles l (clock L) ((n, cb) # cbs) = new_handles l (clock L) cbs"
      using False by (cases "time_remaining l n") (auto simp: new_handles_def)
    have same: "timers_getattr T' n = Inr None" using IH nrest empty by simp
    have out: "slot_outcome l T' L' n0 (clock L) (n, cb)"
      using False same by (cases "time_remaining l n") (auto simp: slot_outcome_def)
    show ?thesis
      using IH nh out lf by (simp add: a log_record_def)
  next
    case True
    then obtain t where t: "time_remaining l n = Some t" "0 < t" by blast
    let ?L0 = "log_record INFO ''Scheduling lease %s in %.2fs'' n L"
    let ?h = "\<lparr>when_due = clock L + t, callback = cb, cancelled = False, has_run = False\<rparr>"
    let ?L1 = "?L0\<lparr>handles := handles L @ [?h],
                    calls := calls L @ [CallLater (length (handles L))]\<rparr>"
    let ?T1 = "timers_setattr T n (Some (length (handles L)))"
    have step: "arm_callbacks l ((n, cb) # cbs) T L = arm_callbacks l cbs ?T1 ?L1"
      using t by (simp add: r g call_later_def log_record_def)
    have rec: "arm_callbacks l cbs ?T1 ?L1 = (r, T', L')"
      using Cons.prems(5) a step by simp
    have IH: "r = Inr () \<and> clock L' = clock ?L1 \<and>
         handles L' = handles ?L1 @ new_handles l (clock ?L1) cbs \<and>
         logged L' = logged ?L1 @ map (log_for l) cbs \<and>
         (\<forall>m. m \<notin> set (map fst cbs) \<longrightarrow> timers_getattr T' m = timers_getattr ?T1 m) \<and>
         list_all (slot_outcome l T' L' n0 (clock ?L1)) cbs"
    proof (rule Cons.IH [OF d sub _ _ rec])
      show "\<forall>m\<in>set (map fst cbs). timers_getattr ?T1 m = Inr None"
      proof
        fix m assume m: "m \<in> set (map fst cbs)"
        then have "m \<noteq> n" using nrest by auto
        then have "timers_getattr ?T1 m = timers_getattr T m" by (rule getattr_setattr_other)
        moreover have "timers_getattr T m = Inr None" using Cons.prems(3) m by auto
        ultimately show "timers_getattr ?T1 m = Inr None" by simp
      qed
      show "n0 \<le> length (handles ?L1)" using Cons.prems(4) by simp
    qed
    have nh: "new_handles l (clock L) ((n, cb) # cbs) = ?h # new_handles l (clock L) cbs"
      using t by (simp add: new_handles_def)
    have lf: "log_for l (n, cb) = (INFO, ''Scheduling lease %s in %.2fs'', n)"
      using t by (simp add: log_for_def)
    have slot: "timers_getattr T' n = Inr (Some (length (handles L)))"
      using IH nrest getattr_setattr_same [OF empty] by simp
    have hd: "handles L' ! length (handles L) = ?h"
      using IH by (simp add: nth_append)
    have "armed_with T' L' n0 n (clock L + t) cb"
      using slot hd IH Cons.prems(4) by (simp add: armed_with_def)
    then have out: "slot_outcome l T' L' n0 (clock L) (n, cb)"
      using t by (simp add: slot_outcome_def)
    have others: "\<forall>m. m \<notin> set (map fst ((n, cb) # cbs)) \<longrightarrow>
                    timers_getattr T' m = timers_getattr T m"
      using IH by (simp add: getattr_setattr_other)
    show ?thesis
      using IH nh out lf others by (simp add: a log_record_def)
  qed
qed

lemma getattr_Timers_init_slot:
  "n \<in> set slot_names \<Longrightarrow> timers_getattr Timers_init n = Inr None"
  by (auto simp: slot_names_def timers_getattr_def Timers_init_def)

text \<open>
  C6.  For every lease and every callback given for a slot, \<open>arm\<close> returns without
  error and leaves a newly scheduled handle in the slot if and only if the time the lease
  leaves for that slot is there and strictly positive; with no time, a zero or a negative
  time the slot is left empty and one record is logged, at debug level.  Slots without a
  callback are empty, and the handles scheduled are exactly those of the positive times.
\<close>

theorem arm_schedules_positive_times:
  assumes "list_all (\<lambda>h. h < length (handles L)) (held T)"
    and "loop_running L"
    and "distinct (map fst callbacks)"
    and "set (map fst callbacks) \<subseteq> set slot_names"
    and "arm T L l callbacks = (r, T', L')"
  shows "r = Inr () \<and>
         list_all (slot_outcome l T' L' (length (handles L)) (clock L)) callbacks \<and>
         list_all (\<lambda>n. n \<in> set (map fst callbacks) \<or> timers_getattr T' n = Inr None)
           slot_names \<and>
         drop (length (handles L)) (handles L') = new_handles l (clock L) callbacks \<and>
         drop (length (logged L') - length callbacks) (logged L') = map (log_for l) callbacks"
proof -
  have valid: "\<forall>h \<in> set (held T). h < length (handles L)"
    using assms(1) by (simp add: list_all_iff)
  obtain L1 where c: "cancel T L = (Inr (), Timers_init, L1)"
    and cl: "cancelling (set (held T)) L L1"
    using cancel_cancelling [OF valid] by blast
  have len: "length (handles L1) = length (handles L)" and clk: "clock L1 = clock L"
    and run1: "loop_running L1"
    using cl assms(2) by (simp_all add: cancelling_def)
  have run: "arm_callbacks l callbacks Timers_init L1 = (r, T', L')"
    using assms(5) c run1 by (simp add: arm_def)
  have empty: "\<forall>n \<in> set (map fst callbacks). timers_getattr Timers_init n = Inr None"
    using assms(4) getattr_Timers_init_slot by blast
  have n0: "length (handles L) \<le> length (handles L1)" using len by simp
  note out = arm_callbacks_outcomes [OF assms(3,4) empty n0 run]
  have others: "list_all (\<lambda>n. n \<in> set (map fst callbacks) \<or> timers_getattr T' n = Inr None)
                  slot_names"
    unfolding list_all_iff
  proof
    fix n assume n: "n \<in> set slot_names"
    show "n \<in> set (map fst callbacks) \<or> timers_getattr T' n = Inr None"
    proof (cases "n \<in> set (map fst callbacks)")
      case True then show ?thesis by simp
    next
      case False
      then have "timers_getattr T' n = timers_getattr Timers_init n" using out by simp
      then show ?thesis using getattr_Timers_init_slot [OF n] by simp
    qed
  qed
  have h: "drop (length (handles L)) (handles L') = new_handles l (clock L) callbacks"
    using out len clk by simp
  have lg: "drop (length (logged L') - length callbacks) (logged L') =
              map (log_for l) callbacks"
    using out by simp
  show ?thesis using out others h lg clk by simp
qed

lemmas timers_defs =
  arm_def cancel_def reset_timer_def timers_getattr_def timers_setattr_def
  lease_getattr_def call_later_def handle_cancel_def log_record_def Timers_init_def

lemma arm_example: "arm Timers_init loop0 lease1 callbacks1 = (Inr (), timers1, loop1)"
  by (simp add: timers_defs loop0_def lease1_def callbacks1_def timers1_def loop1_def)

theorem arm_schedules_positive_times_witness:
  "arm Timers_init loop0 lease1 callbacks1 =
     (Inr (), \<lparr>renewal = Some 0, rebinding = None, expiration = Some 1\<rparr>, loop1) \<and>
   armed_with timers1 loop1 0 ''renewal'' 130 ''renew'' \<and>
   timers_getattr timers1 ''rebinding'' = Inr None \<and>
   armed_with timers1 loop1 0 ''expiration'' 3700 ''expire'' \<and>
   length (handles loop1) = 2 \<and>
   logged loop1 ! 1 = (DEBUG, ''Lease %s is in the past'', ''rebinding'')"
proof -
  have "Inr () = (Inr () :: error + unit) \<and>
        list_all (slot_outcome lease1 timers1 loop1 (length (handles loop0)) (clock loop0))
          callbacks1 \<and>
        list_all (\<lambda>n. n \<in> set (map fst callbacks1) \<or> timers_getattr timers1 n = Inr None)
          slot_names \<and>
        drop (length (handles loop0)) (handles loop1) =
          new_handles lease1 (clock loop0) callbacks1 \<and>
        drop (length (logged loop1) - length callbacks1) (logged loop1) =
          map (log_for lease1) callbacks1"
    by (rule arm_schedules_positive_times [OF _ _ _ _ arm_example])
       (simp_all add: held_def Timers_init_def loop0_def callbacks1_def slot_names_def)
  then have "list_all (slot_outcome lease1 timers1 loop1 0 100) callbacks1 \<and>
             handles loop1 = new_handles lease1 100 callbacks1 \<and>
             drop (length (logged loop1) - length callbacks1) (logged loop1) =
               map (log_for lease1) callbacks1"
    by (simp add: loop0_def)
  then have "armed_with timers1 loop1 0 ''renewal'' 130 ''renew'' \<and>
             timers_getattr timers1 ''rebinding'' = Inr None \<and>
             armed_with timers1 loop1 0 ''expiration'' 3700 ''expire'' \<and>
             length (handles loop1) = 2 \<and>
             logged loop1 ! 1 = (DEBUG, ''Lease %s is in the past'', ''rebinding'')"
    by (simp add: callbacks1_def slot_outcome_def time_remaining_def lease_getattr_def
          lease1_def new_handles_def log_for_def)
       (simp add: loop1_def)
  then show ?thesis using arm_example by (simp add: timers1_def)
qed

lemma foreign_call_later_example: "snd (call_later loop1 500 ''other'') = loop1_shared"
  by (simp add: call_later_def loop1_def loop1_shared_def)

lemma arm_again_example:
  "arm timers1 loop1_shared lease2 callbacks2 = (Inr (), timers2, loop2)"
  by (simp add: timers_defs loop1_shared_def lease2_def callbacks2_def timers1_def
      timers2_def loop2_def)

lemma upt_0_5: "[0 ..< 5] = [0, 1, 2, 3, 4 :: nat]"
  by code_simp

theorem arm_cancels_earlier_handles_witness:
  "arm Timers_init loop0 lease1 callbacks1 = (Inr (), timers1, loop1) \<and>
   snd (call_later loop1 500 ''other'') = loop1_shared \<and>
   arm timers1 loop1_shared lease2 callbacks2 = (Inr (), timers2, loop2) \<and>
   cancelled (handles loop2 ! 0) \<and> cancelled (handles loop2 ! 1) \<and>
   drop (length (calls loop1_shared)) (calls loop2) =
     [HandleCancel 0, HandleCancel 1, CallLater 3, CallLater 4] \<and>
   held timers2 = [4, 3] \<and>
   timers_own [0, 1, 4, 3] timers2 loop2 \<and>
   due loop2 5000 = [4, 3, 2] \<and>
   fst (run_until loop2 5000) = [''renew2'', ''rebind2'', ''other'']"
proof -
  have own1: "timers_own [0, 1] timers1 loop1_shared"
    by (simp add: timers_own_def held_def timers1_def loop1_shared_def)
  have names: "distinct (map fst callbacks2)" by (simp add: callbacks2_def)
  have h2: "held timers2 = [4, 3]" by (simp add: held_def timers2_def)
  have "list_all (\<lambda>h. cancelled (handles loop2 ! h)) [0, 1] \<and>
        cancels_then_schedules (drop (length (calls loop1_shared)) (calls loop2)) \<and>
        distinct (held timers2) \<and>
        set (held timers2) = {length (handles loop1_shared) ..< length (handles loop2)} \<and>
        list_all (\<lambda>h. \<not> cancelled (handles loop2 ! h)) (held timers2) \<and>
        timers_own ([0, 1] @ held timers2) timers2 loop2 \<and>
        set (due loop2 5000) \<inter> set [0, 1] = {}"
    by (rule arm_cancels_earlier_handles [OF own1 names arm_again_example])
  then have "cancelled (handles loop2 ! 0) \<and> cancelled (handles loop2 ! 1) \<and>
       timers_own [0, 1, 4, 3] timers2 loop2"
    by (simp add: h2)
  moreover have "drop (length (calls loop1_shared)) (calls loop2) =
     [HandleCancel 0, HandleCancel 1, CallLater 3, CallLater 4]"
    by (simp add: loop1_shared_def loop2_def)
  moreover have d: "due loop2 5000 = [4, 3, 2]"
    by (simp add: due_def loop2_def upt_0_5)
  moreover have "fst (run_until loop2 5000) = [''renew2'', ''rebind2'', ''other'']"
    by (simp add: run_until_def d) (simp add: loop2_def)
  ultimately show ?thesis
    using arm_example arm_again_example foreign_call_later_example h2 by simp
qed

section \<open>Properties of sending and receiving\<close>

text \<open>Packing and unpacking a 16-bit number; a checksum fits its field.\<close>

lemma pack_H_ok:
  assumes "0 \<le> v" "v < 65536"
  shows "pack_H v = Inr [word_of_int (v div 256), word_of_int (v mod 256)]"
  using assms by (simp add: pack_H_def)

lemma unpack_pack_H:
  assumes "0 \<le> v" "v < 65536"
  shows "256 * uint (word_of_int (v div 256) :: byte) + uint (word_of_int (v mod 256) :: byte) = v"
proof -
  have "0 \<le> v div 256" and "v div 256 < 256" using assms by simp_all
  then have hi: "(v div 256) mod 256 = v div 256" by (rule mod_pos_pos_trivial)
  have "uint (word_of_int (v div 256) :: byte) = (v div 256) mod 256"
    by (simp add: uint_word_of_int)
  moreover have "uint (word_of_int (v mod 256) :: byte) = v mod 256"
    by (simp add: uint_word_of_int)
  ultimately show ?thesis using hi by simp
qed

lemma uint_csum_range: "0 \<le> uint (c :: 16 word) \<and> uint c < 65536"
  using uint_bounded [of c] by simp

lemma put_example:
  "put toy_codec (\<lambda>bs. 0) example_socket example_msg =
     (Inr (), example_sent, example_socket\<lparr>sent := [example_frame]\<rparr>)"
  by (simp add: put_def frame_of_def Let_def toy_codec_def example_socket_def example_msg_def
      example_sent_def example_frame_def udpmsg_encode_def ip4msg_encode_def ethmsg_encode_def
      udp4_pseudo_header_encode_def pack_H_def pack_B_def UDP_HEADER_SIZE_def
      IPV4_HEADER_SIZE_def IPPROTO_UDP_def ETHERTYPE_IP_def)

text \<open>
  C7.  For every message whose source port differs from the port of the socket, \<open>put\<close>
  raises \<open>ValueError\<close>, and the message and the socket are left exactly as they were:
  neither the source address nor the client hardware address is filled in, no frame is
  sent, and a later call finds the socket as if the failed one had not been made.
\<close>

theorem put_rejects_foreign_source_port:
  assumes "sport msg \<noteq> port self"
  shows "put codec csum self msg = (Inl ValueError, msg, self)"
  using assms by (simp add: put_def)

theorem put_rejects_foreign_source_port_witness:
  "sport (example_msg\<lparr>sport := 67\<rparr>) \<noteq> port example_socket \<and>
   put toy_codec (\<lambda>bs. 0) example_socket (example_msg\<lparr>sport := 67\<rparr>) =
     (Inl ValueError, example_msg\<lparr>sport := 67\<rparr>, example_socket) \<and>
   put toy_codec (\<lambda>bs. 0) example_socket example_msg =
     (Inr (), example_sent, example_socket\<lparr>sent := [example_frame]\<rparr>)"
proof -
  have ne: "sport (example_msg\<lparr>sport := 67\<rparr>) \<noteq> port example_socket"
    by (simp add: example_socket_def)
  show ?thesis
    using ne put_rejects_foreign_source_port [OF ne, of toy_codec "\<lambda>bs. 0"] put_example
    by simp
qed

text \<open>
  The layers of a frame of at least 42 bytes whose IPv4 header has five words, and the
  frame \<open>put\<close> builds: 42 bytes of headers, then the payload.
\<close>

lemma decode_msg_layers:
  assumes "42 \<le> length fr" and "unpack_B fr 14 = 0x45"
    and "dhcp_decode codec fr 42 = Inr d"
  shows "decode_msg codec fr =
           Inr \<lparr>rcv_dhcp = d, rcv_eth_src = mac_at fr 6, rcv_eth_dst = mac_at fr 0,
                rcv_ip_src = ip4addr_at fr 26, rcv_ip_dst = ip4addr_at fr 30,
                rcv_sport = unpack_H fr 34, rcv_dport = unpack_H fr 36\<rparr>"
proof -
  have eth: "ethmsg_decode fr 0 =
               Inr (\<lparr>eth_msg_dst = mac_at fr 0, eth_msg_src = mac_at fr 6,
                      eth_msg_type = unpack_H fr 12\<rparr>, 14)"
    using assms(1) by (simp add: ethmsg_decode_def)
  have hl: "nat (4 * (unpack_B fr 14 AND 0xF)) = 20"
    by (simp add: assms(2))
  obtain ip4 where ip4: "ip4msg_decode fr 14 = Inr (ip4, 34)"
    and src: "ip4_src ip4 = ip4addr_at fr 26" and dst: "ip4_dst ip4 = ip4addr_at fr 30"
    using assms(1) by (simp add: ip4msg_decode_def hl del: ip4addr_at.simps)
  obtain udp where udp: "udpmsg_decode fr 34 = Inr (udp, 42)"
    and sp: "udp_sport udp = unpack_H fr 34" and dp: "udp_dport udp = unpack_H fr 36"
    using assms(1) by (simp add: udpmsg_decode_def)
  show ?thesis
    by (simp add: decode_msg_def eth ip4 udp assms(3) src dst sp dp del: mac_at.simps ip4addr_at.simps)
qed

lemma frame_of_ok:
  assumes "0 \<le> p" "p < 65536" "0 \<le> dport msg" "dport msg < 65536"
    and "dhcp_encode codec (dhcp msg) = Inr data" and "length data \<le> 65507"
  shows "\<exists>fr. frame_of codec csum p src msg = Inr fr \<and>
              length fr = 42 + length data \<and> drop 42 fr = data \<and>
              unpack_B fr 14 = 0x45 \<and>
              mac_at fr 0 = eth_dst msg \<and> mac_at fr 6 = src \<and>
              ip4addr_at fr 26 = ip_src msg \<and> ip4addr_at fr 30 = ip_dst msg \<and>
              unpack_H fr 34 = p \<and> unpack_H fr 36 = dport msg"
proof -
  obtain d1 d2 d3 d4 d5 d6 where ed: "eth_dst msg = Mac d1 d2 d3 d4 d5 d6"
    by (cases "eth_dst msg")
  obtain s1 s2 s3 s4 s5 s6 where es: "src = Mac s1 s2 s3 s4 s5 s6" by (cases src)
  obtain a1 a2 a3 a4 where ia: "ip_src msg = Ip4addr a1 a2 a3 a4" by (cases "ip_src msg")
  obtain b1 b2 b3 b4 where ib: "ip_dst msg = Ip4addr b1 b2 b3 b4" by (cases "ip_dst msg")
  have ulen: "0 \<le> 8 + int (length data)" "8 + int (length data) < 65536"
    using assms(6) by simp_all
  have ilen: "0 \<le> 28 + int (length data)" "28 + int (length data) < 65536"
    using assms(6) by simp_all
  have c: "\<And>c :: 16 word. pack_H (uint c) =
             Inr [word_of_int (uint c div 256), word_of_int (uint c mod 256)]"
    using uint_csum_range by (intro pack_H_ok) simp_all
  have sp: "256 * uint (word_of_int (p div 256) :: byte) + uint (word_of_int (p mod 256) :: byte) = p"
    by (rule unpack_pack_H [OF assms(1,2)])
  have dp: "256 * uint (word_of_int (dport msg div 256) :: byte) +
            uint (word_of_int (dport msg mod 256) :: byte) = dport msg"
    by (rule unpack_pack_H [OF assms(3,4)])
  show ?thesis
    using sp dp
    by (simp add: frame_of_def Let_def assms(5) udpmsg_encode_def ip4msg_encode_def
          ethmsg_encode_def udp4_pseudo_header_encode_def
          pack_H_ok [OF assms(1,2)] pack_H_ok [OF assms(3,4)] pack_H_ok [OF ulen]
          pack_H_ok [OF ilen] c pack_B_def UDP_HEADER_SIZE_def IPV4_HEADER_SIZE_def
          IPPROTO_UDP_def ETHERTYPE_IP_def ed es ia ib unpack_B_def unpack_H_def
          pack_H_def [of 0] pack_H_def [of 2048])
qed

text \<open>
  C1.  For every message whose source port is the port of the socket, whose ports fit 16
  bits and whose DHCP payload, with the addresses filled in, the codec encodes in at most
  65507 bytes and decodes again from behind 42 bytes of headers: \<open>put\<close> returns without
  error, leaves the message as it was but for an unset source address and an unset client
  hardware address, which it fills in, and sends one frame; decoding that frame gives
  the same DHCP payload, source and destination MAC addresses, source and destination
  IPv4 addresses and source and destination ports.
\<close>

theorem decode_put_roundtrip:
  assumes "sport msg = port self"
    and "0 \<le> port self" and "port self < 65536"
    and "0 \<le> dport msg" and "dport msg < 65536"
    and "put codec csum self msg = (r, msg', self')"
    and "dhcp_encode codec (dhcp msg') = Inr data" and "length data \<le> 65507"
    and "\<And>pre. length pre = 42 \<Longrightarrow> dhcp_decode codec (pre @ data) 42 = Inr (dhcp msg')"
  shows "r = Inr () \<and>
         msg' = msg\<lparr>eth_src := Some (case eth_src msg of None \<Rightarrow> l2addr self | Some a \<Rightarrow> a),
                    dhcp := (dhcp msg)\<lparr>chaddr := Some (case chaddr (dhcp msg) of
                        None \<Rightarrow> (case eth_src msg of None \<Rightarrow> l2addr self | Some a \<Rightarrow> a)
                      | Some a \<Rightarrow> a)\<rparr>\<rparr> \<and>
         length (sent self') = Suc (length (sent self)) \<and>
         decode_msg codec (last (sent self')) =
           Inr \<lparr>rcv_dhcp = dhcp msg',
                rcv_eth_src = (case eth_src msg of None \<Rightarrow> l2addr self | Some a \<Rightarrow> a),
                rcv_eth_dst = eth_dst msg, rcv_ip_src = ip_src msg, rcv_ip_dst = ip_dst msg,
                rcv_sport = sport msg, rcv_dport = dport msg\<rparr>"
proof -
  define src where "src = (case eth_src msg of None \<Rightarrow> l2addr self | Some a \<Rightarrow> a)"
  define hw where "hw = (case chaddr (dhcp msg) of None \<Rightarrow> src | Some a \<Rightarrow> a)"
  define m where "m = msg\<lparr>eth_src := Some src, dhcp := (dhcp msg)\<lparr>chaddr := Some hw\<rparr>\<rparr>"
  have unfold: "put codec csum self msg =
      (case frame_of codec csum (port self) src m of
         Inl e \<Rightarrow> (Inl e, m, self)
       | Inr data \<Rightarrow> (Inr (), m, self\<lparr>sent := sent self @ [data]\<rparr>))"
    unfolding put_def Let_def src_def hw_def m_def using assms(1) by simp
  have m': "msg' = m"
    using assms(6) unfolding unfold by (cases "frame_of codec csum (port self) src m") auto
  have dm: "dport m = dport msg" "eth_dst m = eth_dst msg" "ip_src m = ip_src msg"
    "ip_dst m = ip_dst msg" by (simp_all add: m_def)
  have enc: "dhcp_encode codec (dhcp m) = Inr data" using assms(7) m' by simp
  have dp: "0 \<le> dport m" "dport m < 65536" using assms(4,5) dm by simp_all
  obtain fr where fr: "frame_of codec csum (port self) src m = Inr fr"
    and len: "length fr = 42 + length data" and dr: "drop 42 fr = data"
    and vl: "unpack_B fr 14 = 0x45"
    and f1: "mac_at fr 0 = eth_dst m" and f2: "mac_at fr 6 = src"
    and f3: "ip4addr_at fr 26 = ip_src m" and f4: "ip4addr_at fr 30 = ip_dst m"
    and f5: "unpack_H fr 34 = port self" and f6: "unpack_H fr 36 = dport m"
    using frame_of_ok [OF assms(2,3) dp enc assms(8), of csum src] by blast
  have res: "r = Inr ()" "self' = self\<lparr>sent := sent self @ [fr]\<rparr>"
    using assms(6) unfolding unfold fr by simp_all
  have split: "fr = take 42 fr @ data" using dr append_take_drop_id [of 42 fr] by simp
  have "length (take 42 fr) = 42" using len by simp
  then have "dhcp_decode codec (take 42 fr @ data) 42 = Inr (dhcp msg')" by (rule assms(9))
  then have dec: "dhcp_decode codec fr 42 = Inr (dhcp msg')" using split by simp
  have l42: "42 \<le> length fr" using len by simp
  have "decode_msg codec fr =
           Inr \<lparr>rcv_dhcp = dhcp msg', rcv_eth_src = src, rcv_eth_dst = eth_dst msg,
                rcv_ip_src = ip_src msg, rcv_ip_dst = ip_dst msg,
                rcv_sport = sport msg, rcv_dport = dport msg\<rparr>"
    unfolding decode_msg_layers [OF l42 vl dec] f1 f2 f3 f4 f5 f6 dm
    using assms(1) by simp
  then show ?thesis
    using res m' unfolding m_def hw_def src_def by simp
qed

theorem decode_put_roundtrip_witness:
  "put toy_codec (\<lambda>bs. 0) example_socket example_msg =
     (Inr (), example_sent, example_socket\<lparr>sent := [example_frame]\<rparr>) \<and>
   decode_msg toy_codec example_frame =
     Inr \<lparr>rcv_dhcp = \<lparr>chaddr = Some (Mac 2 0 0 0 0 1), body = [1, 1, 6, 0]\<rparr>,
          rcv_eth_src = Mac 2 0 0 0 0 1,
          rcv_eth_dst = Mac 0xff 0xff 0xff 0xff 0xff 0xff,
          rcv_ip_src = Ip4addr 0 0 0 0, rcv_ip_dst = Ip4addr 255 255 255 255,
          rcv_sport = 68, rcv_dport = 67\<rparr>"
proof -
  let ?data = "[1, 2, 0, 0, 0, 0, 1, 1, 1, 6, 0] :: byte list"
  have enc: "dhcp_encode toy_codec (dhcp example_sent) = Inr ?data"
    by (simp add: toy_codec_def example_sent_def)
  have rt: "\<And>pre. length pre = 42 \<Longrightarrow>
              dhcp_decode toy_codec (pre @ ?data) 42 = Inr (dhcp example_sent)"
    by (simp add: toy_codec_def example_sent_def nth_append)
  have "Inr () = (Inr () :: error + unit) \<and>
        example_sent = example_msg\<lparr>eth_src := Some (case eth_src example_msg of
              None \<Rightarrow> l2addr example_socket | Some a \<Rightarrow> a),
            dhcp := (dhcp example_msg)\<lparr>chaddr := Some (case chaddr (dhcp example_msg) of
                None \<Rightarrow> (case eth_src example_msg of
                           None \<Rightarrow> l2addr example_socket | Some a \<Rightarrow> a)
              | Some a \<Rightarrow> a)\<rparr>\<rparr> \<and>
        length (sent (example_socket\<lparr>sent := [example_frame]\<rparr>)) =
          Suc (length (sent example_socket)) \<and>
        decode_msg toy_codec (last (sent (example_socket\<lparr>sent := [example_frame]\<rparr>))) =
          Inr \<lparr>rcv_dhcp = dhcp example_sent,
               rcv_eth_src = (case eth_src example_msg of
                   None \<Rightarrow> l2addr example_socket | Some a \<Rightarrow> a),
               rcv_eth_dst = eth_dst example_msg, rcv_ip_src = ip_src example_msg,
               rcv_ip_dst = ip_dst example_msg,
               rcv_sport = sport example_msg, rcv_dport = dport example_msg\<rparr>"
    by (rule decode_put_roundtrip [OF _ _ _ _ _ put_example enc _ rt])
       (simp_all add: example_socket_def example_msg_def)
  then have "decode_msg toy_codec example_frame =
     Inr \<lparr>rcv_dhcp = \<lparr>chaddr = Some (Mac 2 0 0 0 0 1), body = [1, 1, 6, 0]\<rparr>,
          rcv_eth_src = Mac 2 0 0 0 0 1,
          rcv_eth_dst = Mac 0xff 0xff 0xff 0xff 0xff 0xff,
          rcv_ip_src = Ip4addr 0 0 0 0, rcv_ip_dst = Ip4addr 255 255 255 255,
          rcv_sport = 68, rcv_dport = 67\<rparr>"
    by (simp add: example_socket_def example_msg_def example_sent_def)
  then show ?thesis using put_example by simp
qed

end
